theory Spec2Isabelle
  imports Complex_Main "HOL-Library.Multiset"
begin

section \<open>Data model (types.ts)\<close>

text \<open>
  The interfaces of \<^verbatim>\<open>types.ts\<close> as records, the enums as datatypes. An optional
  field (\<^verbatim>\<open>isStreaming?: boolean\<close>) is an \<open>option\<close>, \<open>None\<close> standing for
  \<^verbatim>\<open>undefined\<close>. The field \<^verbatim>\<open>id\<close> is written \<open>id_msg\<close> and \<open>id_session\<close>, since
  \<open>id\<close> is the identity function of HOL. \<^verbatim>\<open>updatedAt\<close> holds \<^verbatim>\<open>Date.now()\<close>, a
  number of milliseconds, and is an \<open>int\<close>.
\<close>

datatype Role = USER | MODEL | SYSTEM

record Web =
  uri :: "string option"
  title :: "string option"

record Message =
  id_msg :: string
  role :: Role
  content :: string
  isStreaming :: "bool option"
  isError :: "bool option"
  groundingSources :: "Web list option"

datatype AppMode = CHAT | STORY | RESEARCH | CHARACTER

record StorySettings =
  genre :: string
  tone :: string
  pov :: string
  creativityLevel :: real

record ChatSession =
  id_session :: string
  title :: string
  messages :: "Message list"
  mode :: AppMode
  settings :: StorySettings
  updatedAt :: int
  preview :: string

section \<open>Local storage and JSON (the platform)\<close>

text \<open>
  \<^verbatim>\<open>localStorage\<close> is a map from keys to strings. \<^verbatim>\<open>JSON.parse\<close> and
  \<^verbatim>\<open>JSON.stringify\<close> belong to the platform, not to the repository: every function
  that uses them takes them as the parameters \<open>parse\<close> and \<open>stringify\<close>. A
  \<^verbatim>\<open>SyntaxError\<close> thrown by \<^verbatim>\<open>JSON.parse\<close> is the value \<open>Inl SyntaxError\<close>. The
  parsed value has the type the source declares for it, \<^verbatim>\<open>ChatSession[]\<close>.
\<close>

datatype js_exception = SyntaxError

type_synonym localStorage = "string \<rightharpoonup> string"

type_synonym json_parse = "string \<Rightarrow> js_exception + ChatSession list"

type_synonym json_stringify = "ChatSession list \<Rightarrow> string"

definition getItem :: "localStorage \<Rightarrow> string \<Rightarrow> string option" where
  "getItem ls k = ls k"

definition setItem :: "localStorage \<Rightarrow> string \<Rightarrow> string \<Rightarrow> localStorage" where
  "setItem ls k v = ls(k \<mapsto> v)"

text \<open>
  What the theorems below ask of the two JSON functions at one list \<open>xs\<close>: the text
  written for \<open>xs\<close> is not empty and parses back to \<open>xs\<close>.
\<close>

definition json_roundtrip :: "json_parse \<Rightarrow> json_stringify \<Rightarrow> ChatSession list \<Rightarrow> bool" where
  "json_roundtrip parse stringify xs \<longleftrightarrow>
     stringify xs \<noteq> [] \<and> parse (stringify xs) = Inr xs"

section \<open>Array methods (the platform)\<close>

text \<open>\<^verbatim>\<open>findIndex\<close>: the index of the first element that satisfies the test, or \<open>-1\<close>.\<close>

fun findIndex :: "('a \<Rightarrow> bool) \<Rightarrow> 'a list \<Rightarrow> int" where
  "findIndex p [] = -1"
| "findIndex p (x # xs) =
     (if p x then 0 else (let i = findIndex p xs in if i \<ge> 0 then i + 1 else -1))"

text \<open>
  \<^verbatim>\<open>Array.prototype.sort\<close> with a comparator: stable (ECMAScript 2019), so it is the
  insertion sort that puts an element before the first element it must not follow.
\<close>

fun insert_by :: "('a \<Rightarrow> 'a \<Rightarrow> int) \<Rightarrow> 'a \<Rightarrow> 'a list \<Rightarrow> 'a list" where
  "insert_by cmp x [] = [x]"
| "insert_by cmp x (y # ys) =
     (if cmp x y \<le> 0 then x # y # ys else y # insert_by cmp x ys)"

definition array_sort :: "('a \<Rightarrow> 'a \<Rightarrow> int) \<Rightarrow> 'a list \<Rightarrow> 'a list" where
  "array_sort cmp xs = foldr (insert_by cmp) xs []"

section \<open>Session storage (the storage service)\<close>

definition STORAGE_KEY :: string where
  "STORAGE_KEY = ''inkweaver_sessions''"

text \<open>
  The body of the \<^verbatim>\<open>try\<close> of \<^verbatim>\<open>getSessions\<close>: \<^verbatim>\<open>stored ? JSON.parse(stored) : []\<close>.
  An absent item is \<^verbatim>\<open>null\<close> and the empty string is falsy as well.
\<close>

definition getSessions_try :: "json_parse \<Rightarrow> localStorage \<Rightarrow> js_exception + ChatSession list" where
  "getSessions_try parse ls =
     (case getItem ls STORAGE_KEY of
        None \<Rightarrow> Inr []
      | Some stored \<Rightarrow> (if stored \<noteq> [] then parse stored else Inr []))"

text \<open>\<^verbatim>\<open>getSessions\<close>: the \<^verbatim>\<open>catch\<close> turns every exception of the body into \<^verbatim>\<open>[]\<close>.\<close>

definition getSessions :: "json_parse \<Rightarrow> localStorage \<Rightarrow> ChatSession list" where
  "getSessions parse ls =
     (case getSessions_try parse ls of Inl e \<Rightarrow> [] | Inr sessions \<Rightarrow> sessions)"

text \<open>The comparator of \<^verbatim>\<open>saveSession\<close>: \<^verbatim>\<open>(a, b) => b.updatedAt - a.updatedAt\<close>.\<close>

definition newest_first :: "ChatSession \<Rightarrow> ChatSession \<Rightarrow> int" where
  "newest_first a b = updatedAt b - updatedAt a"

text \<open>
  The first step of \<^verbatim>\<open>saveSession\<close>: replace at the index found, or \<^verbatim>\<open>unshift\<close>.
\<close>

definition upsert :: "ChatSession \<Rightarrow> ChatSession list \<Rightarrow> ChatSession list" where
  "upsert session sessions =
     (let index = findIndex (\<lambda>s. id_session s = id_session session) sessions
      in if index \<ge> 0 then sessions[nat index := session] else session # sessions)"

text \<open>
  \<^verbatim>\<open>saveSession\<close> returns the new local storage and the list it returns in the source.
  \<^verbatim>\<open>setItem\<close> always succeeds here: a full storage is not modelled.
\<close>

definition saveSession ::
  "json_parse \<Rightarrow> json_stringify \<Rightarrow> ChatSession \<Rightarrow> localStorage \<Rightarrow> localStorage \<times> ChatSession list" where
  "saveSession parse stringify session ls =
     (let sessions = upsert session (getSessions parse ls);
          sorted_sessions = array_sort newest_first sessions;
          trimmed = take 50 sorted_sessions
      in (setItem ls STORAGE_KEY (stringify trimmed), trimmed))"

definition deleteSession ::
  "json_parse \<Rightarrow> json_stringify \<Rightarrow> string \<Rightarrow> localStorage \<Rightarrow> localStorage \<times> ChatSession list" where
  "deleteSession parse stringify sessionId ls =
     (let sessions = getSessions parse ls;
          newSessions = filter (\<lambda>s. id_session s \<noteq> sessionId) sessions
      in (setItem ls STORAGE_KEY (stringify newSessions), newSessions))"

text \<open>\<^verbatim>\<open>getSessionById\<close>: \<^verbatim>\<open>find\<close> returns the first match, \<open>None\<close> for \<^verbatim>\<open>undefined\<close>.\<close>

definition getSessionById :: "json_parse \<Rightarrow> string \<Rightarrow> localStorage \<Rightarrow> ChatSession option" where
  "getSessionById parse sessionId ls =
     List.find (\<lambda>s. id_session s = sessionId) (getSessions parse ls)"

section \<open>Errors of the API client (the AI service)\<close>

text \<open>
  The source reads four things of a caught value \<^verbatim>\<open>error: any\<close>:
  \<^verbatim>\<open>error.toString()\<close>, \<^verbatim>\<open>typeof error === 'object'\<close>, \<^verbatim>\<open>JSON.stringify(error)\<close> as
  the \<^verbatim>\<open>+\<close> operator renders it, and \<^verbatim>\<open>error.message\<close> (\<open>None\<close> when it is
  \<^verbatim>\<open>undefined\<close>). A caught value is the record of the four: the three calls are
  taken to return, as they do for the \<^verbatim>\<open>Error\<close> objects the client throws.
\<close>

record js_error =
  err_toString :: string
  err_is_object :: bool
  err_json :: string
  err_message :: "string option"

text \<open>
  \<^verbatim>\<open>String.prototype.includes\<close>: the second string occurs in the first, at the head
  or further on.
\<close>

fun includes_str :: "string \<Rightarrow> string \<Rightarrow> bool" where
  "includes_str [] sub = (sub = [])"
| "includes_str (c # cs) sub = (take (length sub) (c # cs) = sub \<or> includes_str cs sub)"

text \<open>The two line feeds that the source puts before a friendly message.\<close>

definition newlines :: string where
  "newlines = [CHR 0x0A, CHR 0x0A]"

text \<open>
  \<^verbatim>\<open>getFriendlyErrorMessage\<close>, check by check in the order of the source. The
  last line is \<^verbatim>\<open>error.message || "An unexpected error occurred."\<close>: the empty
  string is falsy as well. The call to \<^verbatim>\<open>console.error\<close> is left out.
\<close>

definition getFriendlyErrorMessage :: "js_error \<Rightarrow> string" where
  "getFriendlyErrorMessage error =
     (let msg = err_toString error @ (if err_is_object error then err_json error else [])
      in if includes_str msg ''process is not defined'' then
           ''[System Error: Configuration failed. The API Key was not injected correctly during build. Please check vite.config.ts.]''
         else if includes_str msg ''403'' \<or> includes_str msg ''PERMISSION_DENIED'' then
           ''[System Error: Access Denied. Your API key may not have access to the selected model. Check your project permissions.]''
         else if includes_str msg ''429'' \<or> includes_str msg ''RESOURCE_EXHAUSTED'' then
           ''[System Error: Quota Exceeded. You are strictly rate-limited.]''
         else if includes_str msg ''Safety'' then
           ''[System: The generated content triggered safety filters. Please adjust the prompt.]''
         else if includes_str msg ''API_KEY'' then
           ''[System Error: Invalid API Key. Please check your Vercel Environment Variables.]''
         else ''[System Error: '' @
                (case err_message error of
                   None \<Rightarrow> ''An unexpected error occurred.''
                 | Some m \<Rightarrow> (if m \<noteq> [] then m else ''An unexpected error occurred.'')) @ '']'')"

section \<open>Streams (the AI service)\<close>

text \<open>
  A chunk of a stream, as far as \<^verbatim>\<open>processStream\<close> reads it: \<^verbatim>\<open>chunk.text\<close>, and the
  array \<^verbatim>\<open>chunk.candidates?.[0]?.groundingMetadata?.groundingChunks\<close>, \<open>None\<close> when
  any link of the chain is missing. Each grounding chunk has an optional \<^verbatim>\<open>web\<close>.
\<close>

record GroundingChunk =
  web :: "Web option"

record Chunk =
  chunk_text :: "string option"
  groundingChunks :: "GroundingChunk list option"

text \<open>Truthiness of an optional string: defined and not empty.\<close>

definition truthy :: "string option \<Rightarrow> bool" where
  "truthy v = (case v of None \<Rightarrow> False | Some s \<Rightarrow> s \<noteq> [])"

text \<open>\<^verbatim>\<open>.map((c) => c.web).filter((w) => w && w.uri && w.title)\<close>.\<close>

definition grounding_sources :: "GroundingChunk list \<Rightarrow> Web list" where
  "grounding_sources gcs =
     concat (map (\<lambda>c. case web c of
                         None \<Rightarrow> []
                       | Some w \<Rightarrow> (if truthy (uri w) \<and> truthy (Web.title w) then [w] else [])) gcs)"

text \<open>
  \<^verbatim>\<open>processStream\<close>: the \<^verbatim>\<open>for await\<close> loop over the chunks the stream yields. The
  two callbacks act on a state \<open>'st\<close>; \<^verbatim>\<open>onSources\<close> is optional. The callbacks are
  total functions: a callback that throws is not modelled.
\<close>

fun processStream ::
  "Chunk list \<Rightarrow> (string \<Rightarrow> 'st \<Rightarrow> 'st) \<Rightarrow> (Web list \<Rightarrow> 'st \<Rightarrow> 'st) option \<Rightarrow> 'st \<Rightarrow> 'st" where
  "processStream [] onChunk onSources st = st"
| "processStream (chunk # rest) onChunk onSources st =
     (let st1 = (case chunk_text chunk of
                   None \<Rightarrow> st
                 | Some t \<Rightarrow> (if t \<noteq> [] then onChunk t st else st));
          st2 = (case groundingChunks chunk of
                   None \<Rightarrow> st1
                 | Some gcs \<Rightarrow>
                     (let sources = grounding_sources gcs
                      in case onSources of
                           None \<Rightarrow> st1
                         | Some f \<Rightarrow> (if length sources > 0 then f sources st1 else st1)))
      in processStream rest onChunk onSources st2)"

text \<open>
  A stream yields finitely many chunks and then either ends (\<open>failure = None\<close>) or
  throws. The client is a function from the model name to what
  \<^verbatim>\<open>ai.chats.create\<close> and \<^verbatim>\<open>chat.sendMessageStream\<close> do for that model: throw
  (\<open>Inl\<close>) or return a stream. The rest of the request (history, message, system
  instruction, temperature, tools) is the same for every attempt of one call and is part
  of the function.
\<close>

record Stream =
  chunks :: "Chunk list"
  failure :: "js_error option"

type_synonym api = "string \<Rightarrow> js_error + Stream"

definition modelsToTry :: "string list" where
  "modelsToTry = [''gemini-3-pro-preview'', ''gemini-3-flash-preview'', ''gemini-2.5-flash-latest'']"

definition isRecoverable :: "js_error \<Rightarrow> bool" where
  "isRecoverable error =
     (let errStr = err_toString error @ err_json error
      in includes_str errStr ''403'' \<or> includes_str errStr ''429'' \<or> includes_str errStr ''503'' \<or>
         includes_str errStr ''not found'' \<or> includes_str errStr ''PERMISSION_DENIED'' \<or>
         includes_str errStr ''RESOURCE_EXHAUSTED'')"

text \<open>
  The body of the \<^verbatim>\<open>try\<close> for one model: the state the callbacks have reached, and the
  error that was caught, if any.
\<close>

definition attempt ::
  "api \<Rightarrow> (string \<Rightarrow> 'st \<Rightarrow> 'st) \<Rightarrow> (Web list \<Rightarrow> 'st \<Rightarrow> 'st) option \<Rightarrow> string \<Rightarrow> 'st \<Rightarrow> 'st \<times> js_error option" where
  "attempt api onChunk onSources modelName st =
     (case api modelName of
        Inl error \<Rightarrow> (st, Some error)
      | Inr stream \<Rightarrow> (processStream (chunks stream) onChunk onSources st, failure stream))"

text \<open>
  The outcome of \<^verbatim>\<open>streamResponse\<close>: the models it has requested, in order, the state
  the callbacks have reached, and whether the call threw. The loop carries
  \<^verbatim>\<open>lastError\<close>; after the last model \<^verbatim>\<open>getFriendlyErrorMessage(lastError)\<close> throws
  a \<^verbatim>\<open>TypeError\<close> if \<^verbatim>\<open>lastError\<close> is still \<^verbatim>\<open>null\<close>. The console output is left out.
\<close>

record 'st run =
  attempted :: "string list"
  final :: 'st
  threw :: bool

fun tryModels ::
  "api \<Rightarrow> (string \<Rightarrow> 'st \<Rightarrow> 'st) \<Rightarrow> (Web list \<Rightarrow> 'st \<Rightarrow> 'st) option \<Rightarrow>
   string list \<Rightarrow> js_error option \<Rightarrow> string list \<Rightarrow> 'st \<Rightarrow> 'st run" where
  "tryModels api onChunk onSources [] lastError tried st =
     (case lastError of
        None \<Rightarrow> \<lparr>attempted = tried, final = st, threw = True\<rparr>
      | Some error \<Rightarrow>
          \<lparr>attempted = tried, final = onChunk (newlines @ getFriendlyErrorMessage error) st,
           threw = False\<rparr>)"
| "tryModels api onChunk onSources (modelName # rest) lastError tried st =
     (case attempt api onChunk onSources modelName st of
        (st', None) \<Rightarrow> \<lparr>attempted = tried @ [modelName], final = st', threw = False\<rparr>
      | (st', Some error) \<Rightarrow>
          (if \<not> isRecoverable error then
             \<lparr>attempted = tried @ [modelName],
              final = onChunk (newlines @ getFriendlyErrorMessage error) st', threw = False\<rparr>
           else tryModels api onChunk onSources rest (Some error) (tried @ [modelName]) st'))"

definition streamResponse ::
  "api \<Rightarrow> (string \<Rightarrow> 'st \<Rightarrow> 'st) \<Rightarrow> (Web list \<Rightarrow> 'st \<Rightarrow> 'st) option \<Rightarrow> 'st \<Rightarrow> 'st run" where
  "streamResponse api onChunk onSources st = tryModels api onChunk onSources modelsToTry None [] st"

section \<open>The response handler of the chat view (App)\<close>

text \<open>
  The state that \<^verbatim>\<open>processResponse\<close> and its two callbacks change: the React state
  \<^verbatim>\<open>messages\<close> and \<^verbatim>\<open>isLoading\<close>, and the local variables \<^verbatim>\<open>accumulatedText\<close> and
  \<^verbatim>\<open>collectedSources\<close>. A functional update \<^verbatim>\<open>setMessages(prev => ...)\<close> is applied
  at once, in the order of the calls.
\<close>

record ui =
  ui_messages :: "Message list"
  isLoading :: bool
  accumulatedText :: string
  collectedSources :: "Web list"

text \<open>The two callbacks that \<^verbatim>\<open>processResponse\<close> passes to \<^verbatim>\<open>streamResponse\<close>.\<close>

definition onChunk_cb :: "string \<Rightarrow> string \<Rightarrow> ui \<Rightarrow> ui" where
  "onChunk_cb botMsgId textChunk u =
     (let acc = accumulatedText u @ textChunk
      in u\<lparr>accumulatedText := acc,
           ui_messages := map (\<lambda>m. if id_msg m = botMsgId then m\<lparr>content := acc\<rparr> else m)
                            (ui_messages u)\<rparr>)"

definition onSources_cb :: "string \<Rightarrow> Web list \<Rightarrow> ui \<Rightarrow> ui" where
  "onSources_cb botMsgId sources u =
     (let newSources = filter (\<lambda>s. \<not> list_ex (\<lambda>existing. uri existing = uri s) (collectedSources u))
                         sources;
          collected = collectedSources u @ newSources
      in u\<lparr>collectedSources := collected,
           ui_messages := map (\<lambda>m. if id_msg m = botMsgId
                                    then m\<lparr>groundingSources := Some collected\<rparr> else m)
                            (ui_messages u)\<rparr>)"

definition botMsgPlaceholder :: "string \<Rightarrow> Message" where
  "botMsgPlaceholder botMsgId =
     \<lparr>id_msg = botMsgId, role = MODEL, content = [], isStreaming = Some True,
      isError = None, groundingSources = None\<rparr>"

text \<open>
  \<^verbatim>\<open>processResponse\<close> from the placeholder on; \<open>botMsgId\<close> stands for
  \<^verbatim>\<open>(Date.now() + 1).toString()\<close>. The title generation that runs in the background
  changes the sessions, not the messages, and is left out.
\<close>

definition processResponse :: "api \<Rightarrow> string \<Rightarrow> ui \<Rightarrow> ui" where
  "processResponse api botMsgId u0 =
     (let u1 = u0\<lparr>ui_messages := ui_messages u0 @ [botMsgPlaceholder botMsgId], isLoading := True\<rparr>;
          u2 = u1\<lparr>accumulatedText := [], collectedSources := []\<rparr>;
          r = streamResponse api (onChunk_cb botMsgId) (Some (onSources_cb botMsgId)) u2;
          u3 = (if threw r then
                  (final r)\<lparr>ui_messages :=
                    map (\<lambda>m. if id_msg m = botMsgId
                              then m\<lparr>content := content m @ newlines @
                                       ''[System Error: An unexpected error occurred. Please check console.]'',
                                     isError := Some True\<rparr>
                              else m) (ui_messages (final r))\<rparr>
                else final r)
      in u3\<lparr>isLoading := False,
            ui_messages := map (\<lambda>m. if id_msg m = botMsgId then m\<lparr>isStreaming := Some False\<rparr> else m)
                             (ui_messages u3)\<rparr>)"

section \<open>Notions used to state the properties\<close>

text \<open>
  The sessions that the stable newest-first sort puts ahead of \<open>s\<close> in a list: the
  strictly newer ones, and the equally new ones that stand before \<open>s\<close>.
\<close>

definition sorted_ahead :: "ChatSession \<Rightarrow> ChatSession list \<Rightarrow> ChatSession list" where
  "sorted_ahead s sessions =
     filter (\<lambda>t. updatedAt s < updatedAt t) sessions @
     filter (\<lambda>t. updatedAt t = updatedAt s)
       (takeWhile (\<lambda>t. id_session t \<noteq> id_session s) sessions)"

text \<open>
  The stored sessions with a given id, and the sessions of a list that are strictly
  newer than \<open>s\<close>.
\<close>

definition with_id :: "string \<Rightarrow> ChatSession list \<Rightarrow> ChatSession list" where
  "with_id i sessions = filter (\<lambda>t. id_session t = i) sessions"

definition newer_than :: "ChatSession \<Rightarrow> ChatSession list \<Rightarrow> ChatSession list" where
  "newer_than s sessions = filter (\<lambda>t. updatedAt s < updatedAt t) sessions"

text \<open>The string that \<^verbatim>\<open>getFriendlyErrorMessage\<close> searches.\<close>

definition error_text :: "js_error \<Rightarrow> string" where
  "error_text error = err_toString error @ (if err_is_object error then err_json error else [])"

text \<open>
  The checks of \<^verbatim>\<open>getFriendlyErrorMessage\<close> as a priority list: the substrings of a
  check and its message. \<open>first_match\<close> returns the message of the first check one of
  whose substrings occurs.
\<close>

definition friendly_checks :: "(string list \<times> string) list" where
  "friendly_checks =
     [([''process is not defined''],
       ''[System Error: Configuration failed. The API Key was not injected correctly during build. Please check vite.config.ts.]''),
      ([''403'', ''PERMISSION_DENIED''],
       ''[System Error: Access Denied. Your API key may not have access to the selected model. Check your project permissions.]''),
      ([''429'', ''RESOURCE_EXHAUSTED''],
       ''[System Error: Quota Exceeded. You are strictly rate-limited.]''),
      ([''Safety''],
       ''[System: The generated content triggered safety filters. Please adjust the prompt.]''),
      ([''API_KEY''],
       ''[System Error: Invalid API Key. Please check your Vercel Environment Variables.]'')]"

fun first_match :: "(string list \<times> string) list \<Rightarrow> string \<Rightarrow> string option" where
  "first_match [] msg = None"
| "first_match ((subs, friendly) # checks) msg =
     (if list_ex (includes_str msg) subs then Some friendly else first_match checks msg)"

definition generic_message :: "js_error \<Rightarrow> string" where
  "generic_message error =
     ''[System Error: '' @
       (case err_message error of
          None \<Rightarrow> ''An unexpected error occurred.''
        | Some m \<Rightarrow> (if m \<noteq> [] then m else ''An unexpected error occurred.'')) @ '']''"

text \<open>
  The error caught for a model, \<open>None\<close> when its stream completes; the models whose
  error is recoverable; the state after the attempts on a list of models, one after the
  other; the substrings that make an error recoverable.
\<close>

definition caught :: "api \<Rightarrow> string \<Rightarrow> js_error option" where
  "caught api modelName = (case api modelName of Inl error \<Rightarrow> Some error | Inr stream \<Rightarrow> failure stream)"

definition fails_recoverably :: "api \<Rightarrow> string \<Rightarrow> bool" where
  "fails_recoverably api modelName =
     (case caught api modelName of None \<Rightarrow> False | Some error \<Rightarrow> isRecoverable error)"

definition after_attempts ::
  "api \<Rightarrow> (string \<Rightarrow> 'st \<Rightarrow> 'st) \<Rightarrow> (Web list \<Rightarrow> 'st \<Rightarrow> 'st) option \<Rightarrow> string list \<Rightarrow> 'st \<Rightarrow> 'st" where
  "after_attempts api onChunk onSources models st =
     foldl (\<lambda>s m. fst (attempt api onChunk onSources m s)) st models"

definition recoverable_markers :: "string list" where
  "recoverable_markers =
     [''403'', ''429'', ''503'', ''not found'', ''PERMISSION_DENIED'', ''RESOURCE_EXHAUSTED'']"

text \<open>
  Callbacks that record their calls, and the texts for which \<^verbatim>\<open>processStream\<close> is
  expected to call \<^verbatim>\<open>onChunk\<close>: the non-empty texts of the chunks, in arrival order.
\<close>

datatype callback_event = OnChunk string | OnSources "Web list"

fun chunk_calls :: "callback_event list \<Rightarrow> string list" where
  "chunk_calls [] = []"
| "chunk_calls (OnChunk t # evs) = t # chunk_calls evs"
| "chunk_calls (OnSources s # evs) = chunk_calls evs"

definition record_chunk :: "string \<Rightarrow> callback_event list \<Rightarrow> callback_event list" where
  "record_chunk t tr = tr @ [OnChunk t]"

definition record_sources :: "Web list \<Rightarrow> callback_event list \<Rightarrow> callback_event list" where
  "record_sources s tr = tr @ [OnSources s]"

definition chunk_texts :: "Chunk list \<Rightarrow> string list" where
  "chunk_texts cs =
     concat (map (\<lambda>c. case chunk_text c of
                         None \<Rightarrow> []
                       | Some t \<Rightarrow> (if t \<noteq> [] then [t] else [])) cs)"

text \<open>
  The texts that one call of \<^verbatim>\<open>streamResponse\<close> is expected to pass to
  \<^verbatim>\<open>onChunk\<close>, stated from the client alone. The models requested are those of the
  chain up to and including the first that does not fail recoverably. Each requested
  model contributes the non-empty chunk texts of its stream, also when the stream fails
  after them; if the last requested model failed, the friendly message of its error
  follows.
\<close>

definition stream_texts :: "api \<Rightarrow> string \<Rightarrow> string list" where
  "stream_texts api modelName =
     (case api modelName of Inl error \<Rightarrow> [] | Inr stream \<Rightarrow> chunk_texts (chunks stream))"

definition requested :: "api \<Rightarrow> string list" where
  "requested api =
     take (Suc (length (takeWhile (fails_recoverably api) modelsToTry))) modelsToTry"

definition delivered_texts :: "api \<Rightarrow> string list" where
  "delivered_texts api =
     concat (map (stream_texts api) (requested api)) @
     (case caught api (last (requested api)) of
        None \<Rightarrow> []
      | Some error \<Rightarrow> [newlines @ getFriendlyErrorMessage error])"

text \<open>
  How a message \<open>m'\<close> of the transcript relates to the message \<open>m\<close> it was before:
  a message with the placeholder's id keeps its id and role and has the new content, if
  there is one; every other message is the same.
\<close>

definition streamed_into :: "string \<Rightarrow> string option \<Rightarrow> Message \<Rightarrow> Message \<Rightarrow> bool" where
  "streamed_into botMsgId new_content m m' =
     (if id_msg m = botMsgId
      then id_msg m' = botMsgId \<and> role m' = role m \<and>
           content m' = (case new_content of None \<Rightarrow> content m | Some c \<Rightarrow> c)
      else m' = m)"

text \<open>
  How the state \<open>u'\<close> relates to an earlier state \<open>u\<close> of one response: the
  accumulated text has grown at its end, and the transcript has the accumulated text
  streamed into it if the text has grown at all.
\<close>

definition accumulated :: "string \<Rightarrow> ui \<Rightarrow> ui \<Rightarrow> bool" where
  "accumulated botMsgId u u' \<longleftrightarrow>
     take (length (accumulatedText u)) (accumulatedText u') = accumulatedText u \<and>
     list_all2 (streamed_into botMsgId
         (if length (accumulatedText u') = length (accumulatedText u) then None
          else Some (accumulatedText u')))
       (ui_messages u) (ui_messages u')"

section \<open>Example values\<close>

text \<open>
  Sessions, a stand-in for the two JSON functions that writes the position of a list in
  a table and reads it back, stores, errors and clients, to instantiate the theorems.
\<close>

definition default_settings :: StorySettings where
  "default_settings =
     \<lparr>genre = ''General Fiction'', tone = ''Neutral'', pov = ''Third Limited'', creativityLevel = 1\<rparr>"

definition session_at :: "string \<Rightarrow> int \<Rightarrow> ChatSession" where
  "session_at i t =
     \<lparr>id_session = i, title = ''New Story Idea'', messages = [], mode = CHAT,
      settings = default_settings, updatedAt = t, preview = ''''\<rparr>"

definition table_stringify :: "ChatSession list list \<Rightarrow> json_stringify" where
  "table_stringify tbl xs = replicate (Suc (length (takeWhile (\<lambda>ys. ys \<noteq> xs) tbl))) (CHR ''#'')"

definition table_parse :: "ChatSession list list \<Rightarrow> json_parse" where
  "table_parse tbl str =
     (if str \<noteq> [] \<and> length str \<le> length tbl then Inr (tbl ! (length str - 1))
      else Inl SyntaxError)"

definition small_table :: "ChatSession list list" where
  "small_table =
     [] # [session_at ''a'' 10] # [session_at ''b'' 20, session_at ''a'' 10] #
     [session_at ''a'' 30, session_at ''b'' 20] # [session_at ''b'' 20] # []"

definition small_store :: localStorage where
  "small_store = Map.empty(STORAGE_KEY \<mapsto> table_stringify small_table [session_at ''a'' 10])"

definition two_store :: localStorage where
  "two_store =
     Map.empty(STORAGE_KEY \<mapsto>
       table_stringify small_table [session_at ''b'' 20, session_at ''a'' 10])"

definition full_sessions :: "ChatSession list" where
  "full_sessions = map (\<lambda>k. session_at (replicate (Suc k) (CHR ''i'')) (int k)) [0..<51]"

definition full_store :: localStorage where
  "full_store = [STORAGE_KEY \<mapsto> table_stringify [full_sessions] full_sessions]"

definition text_chunk :: "string \<Rightarrow> Chunk" where
  "text_chunk t = \<lparr>chunk_text = Some t, groundingChunks = None\<rparr>"

definition quota_error :: js_error where
  "quota_error = \<lparr>err_toString = ''ApiError: 429 RESOURCE_EXHAUSTED'', err_is_object = True,
                   err_json = ''{}'', err_message = Some ''429 RESOURCE_EXHAUSTED''\<rparr>"

definition bad_request :: js_error where
  "bad_request = \<lparr>err_toString = ''ApiError: 400 INVALID_ARGUMENT'', err_is_object = True,
                   err_json = ''{}'', err_message = Some ''400 INVALID_ARGUMENT''\<rparr>"

definition second_model_answers :: api where
  "second_model_answers m =
     (if m = ''gemini-3-pro-preview'' then Inl quota_error
      else if m = ''gemini-3-flash-preview'' then
        Inr \<lparr>chunks = [text_chunk ''Once '', text_chunk [], text_chunk ''upon''], failure = None\<rparr>
      else Inl bad_request)"

definition second_model_rejects :: api where
  "second_model_rejects m =
     (if m = ''gemini-3-pro-preview'' then Inl quota_error else Inl bad_request)"

definition first_model_answers :: api where
  "first_model_answers m =
     Inr \<lparr>chunks = [text_chunk ''Once '', text_chunk [], text_chunk ''upon''], failure = None\<rparr>"

definition story_ui :: ui where
  "story_ui =
     \<lparr>ui_messages = [\<lparr>id_msg = ''1700000000000'', role = USER, content = ''Tell me a story'',
                       isStreaming = None, isError = None, groundingSources = None\<rparr>],
      isLoading = False, accumulatedText = [], collectedSources = []\<rparr>"

text \<open>
  A store of 51 sessions with the same \<^verbatim>\<open>updatedAt\<close>, its last session, and clients
  whose first stream fails after a chunk.
\<close>

definition tied_sessions :: "ChatSession list" where
  "tied_sessions = map (\<lambda>k. session_at (replicate (Suc k) (CHR ''i'')) 5) [0..<51]"

definition tied_last :: ChatSession where
  "tied_last = session_at (replicate 51 (CHR ''i'')) 5"

definition tied_table :: "ChatSession list list" where
  "tied_table = tied_sessions # take 50 tied_sessions # []"

definition tied_store :: localStorage where
  "tied_store = Map.empty(STORAGE_KEY \<mapsto> table_stringify tied_table tied_sessions)"

definition fails_midway :: api where
  "fails_midway m = Inr \<lparr>chunks = [text_chunk ''Hel''], failure = Some bad_request\<rparr>"

definition resumes_on_second :: api where
  "resumes_on_second m =
     (if m = ''gemini-3-pro-preview'' then
        Inr \<lparr>chunks = [text_chunk ''Hel''], failure = Some quota_error\<rparr>
      else Inr \<lparr>chunks = [text_chunk ''Hello''], failure = None\<rparr>)"

section \<open>Lemmas on the array methods\<close>

lemma insert_by_newest_first:
  "insert_by newest_first x ys = insort_key (\<lambda>s. - updatedAt s) x ys"
  by (induction ys) (simp_all add: newest_first_def)

lemma array_sort_newest_first:
  "array_sort newest_first xs = sort_key (\<lambda>s. - updatedAt s) xs"
  by (induction xs) (simp_all add: array_sort_def sort_key_def insert_by_newest_first)

lemma mset_array_sort: "mset (array_sort newest_first xs) = mset xs"
  by (simp add: array_sort_newest_first)

lemma set_array_sort: "set (array_sort newest_first xs) = set xs"
  by (simp add: array_sort_newest_first)


lemma sorted_array_sort:
  "sorted_wrt (\<lambda>a b. updatedAt b \<le> updatedAt a) (array_sort newest_first xs)"
proof -
  have "sorted (map (\<lambda>s. - updatedAt s) (sort_key (\<lambda>s. - updatedAt s) xs))"
    by (rule sorted_sort_key)
  then show ?thesis
    by (simp add: array_sort_newest_first sorted_map)
qed

lemma mset_take_drop: "mset (take n xs) + mset (drop n xs) = mset xs"
  unfolding mset_append[symmetric] append_take_drop_id ..

lemma insort_key_before:
  "f a \<le> f s \<Longrightarrow> insort_key f a (L @ s # R) = insort_key f a L @ s # R"
  by (induction L) simp_all

lemma insort_key_after:
  "\<forall>l\<in>set L. f l < f a \<Longrightarrow> f s < f a \<Longrightarrow>
   insort_key f a (L @ s # R) = L @ s # insort_key f a R"
  by (induction L) (auto dest: leD)

lemma insort_key_sorted_split:
  "sorted (map f S) \<Longrightarrow>
   insort_key f s S = filter (\<lambda>t. f t < f s) S @ s # filter (\<lambda>t. f s \<le> f t) S"
proof (induction S)
  case Nil then show ?case by simp
next
  case (Cons y S)
  show ?case
  proof (cases "f s \<le> f y")
    case True
    with Cons.prems have "\<forall>t\<in>set (y # S). f s \<le> f t" by auto
    then have "filter (\<lambda>t. f t < f s) (y # S) = []" "filter (\<lambda>t. f s \<le> f t) (y # S) = y # S"
      by (auto simp: filter_empty_conv filter_id_conv)
    with True show ?thesis by simp
  next
    case False
    with Cons show ?thesis by simp
  qed
qed

lemma sort_key_position:
  fixes f :: "'a \<Rightarrow> int"
  shows "\<exists>L R. sort_key f (A @ s # B) = L @ s # R \<and> (\<forall>l\<in>set L. f l \<le> f s) \<and>
           set L \<subseteq> set A \<union> set B \<and>
           length L = length (filter (\<lambda>t. f t < f s) (A @ B)) + length (filter (\<lambda>t. f t = f s) A)"
proof (induction A)
  case Nil
  let ?S = "sort_key f B"
  have "sort_key f ([] @ s # B) = insort_key f s ?S" by simp
  also have "\<dots> = filter (\<lambda>t. f t < f s) ?S @ s # filter (\<lambda>t. f s \<le> f t) ?S"
    by (rule insort_key_sorted_split) (rule sorted_sort_key)
  finally have e: "sort_key f ([] @ s # B) = filter (\<lambda>t. f t < f s) ?S @ s # filter (\<lambda>t. f s \<le> f t) ?S" .
  have "length (filter (\<lambda>t. f t < f s) ?S) = length (filter (\<lambda>t. f t < f s) B)"
    by (simp add: filter_sort)
  with e show ?case by fastforce
next
  case (Cons a A)
  then obtain L R where e: "sort_key f (A @ s # B) = L @ s # R"
    and le: "\<forall>l\<in>set L. f l \<le> f s" and sub: "set L \<subseteq> set A \<union> set B"
    and len: "length L = length (filter (\<lambda>t. f t < f s) (A @ B)) + length (filter (\<lambda>t. f t = f s) A)"
    by blast
  have step: "sort_key f ((a # A) @ s # B) = insort_key f a (L @ s # R)"
    using e by simp
  show ?case
  proof (cases "f a \<le> f s")
    case True
    have 1: "sort_key f ((a # A) @ s # B) = insort_key f a L @ s # R"
      unfolding step using True by (rule insort_key_before)
    have 2: "\<forall>l\<in>set (insort_key f a L). f l \<le> f s"
      using le True by (simp add: set_insort_key)
    have 3: "set (insort_key f a L) \<subseteq> set (a # A) \<union> set B"
      using sub by (auto simp: set_insort_key)
    have 4: "length (insort_key f a L) =
        length (filter (\<lambda>t. f t < f s) ((a # A) @ B)) + length (filter (\<lambda>t. f t = f s) (a # A))"
      using len True by auto
    from 1 2 3 4 show ?thesis by blast
  next
    case False
    then have lt: "f s < f a" by simp
    with le have "\<forall>l\<in>set L. f l < f a" by auto
    then have 1: "sort_key f ((a # A) @ s # B) = L @ s # insort_key f a R"
      unfolding step using lt by (rule insort_key_after)
    have 3: "set L \<subseteq> set (a # A) \<union> set B" using sub by auto
    have 4: "length L =
        length (filter (\<lambda>t. f t < f s) ((a # A) @ B)) + length (filter (\<lambda>t. f t = f s) (a # A))"
      using len lt by auto
    from 1 le 3 4 show ?thesis by blast
  qed
qed

lemma find_take_split:
  assumes "\<forall>l\<in>set L. \<not> P l" "P s"
  shows "List.find P (take n (L @ s # R)) = (if length L < n then Some s else None)"
proof (cases "length L < n")
  case True
  then obtain k where "n - length L = Suc k" by (cases "n - length L") auto
  then have "take n (L @ s # R) = L @ s # take k R" using True by simp
  moreover have "List.find P (L @ s # take k R) = Some s"
    using assms by (induction L) auto
  ultimately show ?thesis using True by simp
next
  case False
  then have "take n (L @ s # R) = take n L" by simp
  moreover have "List.find P (take n L) = None"
    using assms(1) by (auto simp: find_None_iff dest: in_set_takeD)
  ultimately show ?thesis using False by simp
qed

lemma findIndex_eq:
  "findIndex p xs = (if \<exists>x\<in>set xs. p x then int (length (takeWhile (\<lambda>x. \<not> p x) xs)) else -1)"
  by (induction xs) (auto simp: Let_def)

lemma list_update_takeWhile:
  "\<exists>x\<in>set xs. p x \<Longrightarrow>
   xs[length (takeWhile (\<lambda>x. \<not> p x) xs) := y] =
     takeWhile (\<lambda>x. \<not> p x) xs @ y # tl (dropWhile (\<lambda>x. \<not> p x) xs)"
  by (induction xs) auto

section \<open>Lemmas on the session storage\<close>

lemma upsert_new:
  "\<forall>t\<in>set xs. id_session t \<noteq> id_session s \<Longrightarrow> upsert s xs = s # xs"
  by (simp add: upsert_def findIndex_eq)

lemma upsert_found:
  "\<exists>t\<in>set xs. id_session t = id_session s \<Longrightarrow>
   upsert s xs = takeWhile (\<lambda>t. id_session t \<noteq> id_session s) xs @ s #
                 tl (dropWhile (\<lambda>t. id_session t \<noteq> id_session s) xs)"
  using list_update_takeWhile[of xs "\<lambda>t. id_session t = id_session s" s]
  by (simp add: upsert_def findIndex_eq)

lemma upsert_split:
  assumes "\<exists>t\<in>set xs. id_session t = id_session s"
  shows "\<exists>A old B. xs = A @ old # B \<and> upsert s xs = A @ s # B \<and>
           id_session old = id_session s \<and> (\<forall>a\<in>set A. id_session a \<noteq> id_session s)"
proof -
  let ?P = "\<lambda>t. id_session t \<noteq> id_session s"
  define A where "A = takeWhile ?P xs"
  define B where "B = tl (dropWhile ?P xs)"
  define old where "old = hd (dropWhile ?P xs)"
  from assms have ne: "dropWhile ?P xs \<noteq> []" by (simp add: dropWhile_eq_Nil_conv)
  then have o: "id_session old = id_session s"
    using hd_dropWhile[of ?P xs] by (simp add: old_def)
  have xs: "xs = A @ old # B"
    using ne by (simp add: A_def B_def old_def)
  have A: "\<forall>a\<in>set A. ?P a" unfolding A_def by (auto dest: set_takeWhileD)
  have "upsert s xs = A @ s # B"
    using upsert_found[OF assms] by (simp add: A_def B_def)
  with xs o A show ?thesis by blast
qed






lemma upsert_shape:
  assumes "length (filter (\<lambda>t. id_session t = id_session s) xs) \<le> 1"
  shows "\<exists>A B. upsert s xs = A @ s # B \<and>
           (\<forall>a\<in>set A. id_session a \<noteq> id_session s) \<and>
           (\<forall>b\<in>set B. id_session b \<noteq> id_session s)"
proof (cases "\<exists>t\<in>set xs. id_session t = id_session s")
  case False
  then have "upsert s xs = [] @ s # xs" by (simp add: upsert_new)
  with False show ?thesis by (metis empty_iff empty_set)
next
  case True
  from upsert_split[OF True] obtain A old B where
    xs: "xs = A @ old # B" and u: "upsert s xs = A @ s # B"
    and o: "id_session old = id_session s" and A: "\<forall>a\<in>set A. id_session a \<noteq> id_session s"
    by blast
  have "filter (\<lambda>t. id_session t = id_session s) B = []"
    using assms o unfolding xs by simp
  then have "\<forall>b\<in>set B. id_session b \<noteq> id_session s"
    by (simp add: filter_empty_conv)
  with u A show ?thesis by blast
qed

lemma sorted_ahead_shape:
  assumes "\<forall>a\<in>set A. id_session a \<noteq> id_session s"
  shows "length (sorted_ahead s (A @ s # B)) =
           length (filter (\<lambda>t. updatedAt s < updatedAt t) (A @ B)) +
           length (filter (\<lambda>t. updatedAt t = updatedAt s) A)"
proof -
  have "takeWhile (\<lambda>t. id_session t \<noteq> id_session s) (A @ s # B) = A"
    using assms by (simp add: takeWhile_append2)
  then show ?thesis by (simp add: sorted_ahead_def)
qed

lemma getSessions_after_setItem:
  "json_roundtrip parse stringify xs \<Longrightarrow>
   getSessions parse (setItem ls STORAGE_KEY (stringify xs)) = xs"
  by (simp add: json_roundtrip_def getSessions_def getSessions_try_def getItem_def setItem_def)

lemma saveSession_snd:
  "snd (saveSession parse stringify s ls) =
     take 50 (array_sort newest_first (upsert s (getSessions parse ls)))"
  by (simp add: saveSession_def Let_def)

lemma saveSession_fst:
  "fst (saveSession parse stringify s ls) =
     setItem ls STORAGE_KEY (stringify (snd (saveSession parse stringify s ls)))"
  by (simp add: saveSession_def Let_def)

lemma read_after_save:
  assumes unique: "length (with_id (id_session s) (getSessions parse ls)) \<le> 1"
    and codec: "json_roundtrip parse stringify (snd (saveSession parse stringify s ls))"
  shows "getSessionById parse (id_session s) (fst (saveSession parse stringify s ls)) =
           (if length (sorted_ahead s (upsert s (getSessions parse ls))) < 50 then Some s else None)"
proof -
  let ?f = "\<lambda>t. - updatedAt t"
  let ?r = "snd (saveSession parse stringify s ls)"
  from unique have "length (filter (\<lambda>t. id_session t = id_session s) (getSessions parse ls)) \<le> 1"
    by (simp add: with_id_def)
  from upsert_shape[OF this] obtain A B where
    u: "upsert s (getSessions parse ls) = A @ s # B"
    and A: "\<forall>a\<in>set A. id_session a \<noteq> id_session s"
    and B: "\<forall>b\<in>set B. id_session b \<noteq> id_session s"
    by blast
  from sort_key_position[of ?f A s B] obtain L R where
    e: "sort_key ?f (A @ s # B) = L @ s # R" and sub: "set L \<subseteq> set A \<union> set B"
    and len: "length L = length (filter (\<lambda>t. ?f t < ?f s) (A @ B)) + length (filter (\<lambda>t. ?f t = ?f s) A)"
    by blast
  have len': "length L = length (sorted_ahead s (A @ s # B))"
    using len sorted_ahead_shape[OF A, of B] by simp
  have noL: "\<forall>l\<in>set L. \<not> (id_session l = id_session s)"
    using sub A B by blast
  have r: "?r = take 50 (L @ s # R)"
    by (simp add: saveSession_snd array_sort_newest_first u e)
  have "getSessions parse (fst (saveSession parse stringify s ls)) = ?r"
    using getSessions_after_setItem[OF codec, of ls] by (simp add: saveSession_fst)
  then have "getSessionById parse (id_session s) (fst (saveSession parse stringify s ls)) =
      List.find (\<lambda>t. id_session t = id_session s) (take 50 (L @ s # R))"
    by (simp add: getSessionById_def r)
  also have "\<dots> = (if length L < 50 then Some s else None)"
    using noL by (rule find_take_split) simp
  finally show ?thesis by (simp add: len' u)
qed

lemma newer_or_equal_le:
  "length (filter (\<lambda>t. updatedAt s < updatedAt t) xs) +
   length (filter (\<lambda>t. updatedAt t = updatedAt s) xs) \<le> length xs"
  by (induction xs) auto

lemma sorted_ahead_small_store:
  assumes small: "length stored \<le> 50"
    and newer: "length (newer_than s stored) < 50"
  shows "length (sorted_ahead s (upsert s stored)) < 50"
proof (cases "\<exists>t\<in>set stored. id_session t = id_session s")
  case False
  then have u: "upsert s stored = s # stored" by (simp add: upsert_new)
  have "length (sorted_ahead s (s # stored)) =
      length (filter (\<lambda>t. updatedAt s < updatedAt t) stored)"
    using sorted_ahead_shape[of "[]" s stored] by simp
  then show ?thesis using newer by (simp add: u newer_than_def)
next
  case True
  from upsert_split[OF True] obtain A old B where
    xs: "stored = A @ old # B" and u: "upsert s stored = A @ s # B"
    and A: "\<forall>a\<in>set A. id_session a \<noteq> id_session s"
    by blast
  have "length (sorted_ahead s (A @ s # B)) =
      length (filter (\<lambda>t. updatedAt s < updatedAt t) (A @ B)) +
      length (filter (\<lambda>t. updatedAt t = updatedAt s) A)"
    using A by (rule sorted_ahead_shape)
  also have "\<dots> = (length (filter (\<lambda>t. updatedAt s < updatedAt t) A) +
                    length (filter (\<lambda>t. updatedAt t = updatedAt s) A)) +
                   length (filter (\<lambda>t. updatedAt s < updatedAt t) B)"
    by simp
  also have "\<dots> \<le> length A + length B"
    using newer_or_equal_le[of s A] length_filter_le[of "\<lambda>t. updatedAt s < updatedAt t" B]
    by linarith
  also have "\<dots> < 50" using small unfolding xs by simp
  finally show ?thesis unfolding u .
qed

section \<open>Lemmas on the fallback chain\<close>

lemma take_eq_imp_includes:
  "take (length sub) s = sub \<Longrightarrow> \<exists>q. s = sub @ q"
  by (metis append_take_drop_id)

lemma includes_str_iff: "includes_str s sub \<longleftrightarrow> (\<exists>p q. s = p @ sub @ q)"
proof (induction s)
  case Nil
  show ?case by auto
next
  case (Cons c cs)
  show ?case
  proof
    assume "includes_str (c # cs) sub"
    then consider "take (length sub) (c # cs) = sub" | "includes_str cs sub" by auto
    then show "\<exists>p q. c # cs = p @ sub @ q"
    proof cases
      case 1
      then obtain q where "c # cs = sub @ q" using take_eq_imp_includes by blast
      then have "c # cs = [] @ sub @ q" by simp
      then show ?thesis by blast
    next
      case 2
      with Cons obtain p q where "cs = p @ sub @ q" by blast
      then have "c # cs = (c # p) @ sub @ q" by simp
      then show ?thesis by blast
    qed
  next
    assume "\<exists>p q. c # cs = p @ sub @ q"
    then obtain p q where e: "c # cs = p @ sub @ q" by blast
    show "includes_str (c # cs) sub"
    proof (cases p)
      case Nil
      with e have "take (length sub) (c # cs) = sub" by simp
      then show ?thesis by simp
    next
      case (Cons a p')
      with e have "cs = p' @ sub @ q" by simp
      with Cons.IH have "includes_str cs sub" by blast
      then show ?thesis by simp
    qed
  qed
qed

lemma isRecoverable_iff:
  "isRecoverable e \<longleftrightarrow>
     (\<exists>sub\<in>set recoverable_markers. \<exists>p q. err_toString e @ err_json e = p @ sub @ q)"
  by (simp add: isRecoverable_def recoverable_markers_def Let_def includes_str_iff)

lemma friendly_refines:
  "getFriendlyErrorMessage e =
     (case first_match friendly_checks (error_text e) of
        Some friendly \<Rightarrow> friendly
      | None \<Rightarrow> generic_message e)"
  by (simp add: getFriendlyErrorMessage_def friendly_checks_def error_text_def generic_message_def Let_def)

lemma snd_attempt: "snd (attempt api onChunk onSources m st) = caught api m"
  by (simp add: attempt_def caught_def split: sum.splits)

lemma tryModels_skip:
  "\<forall>m\<in>set A. fails_recoverably api m \<Longrightarrow>
   tryModels api onChunk onSources (A @ B) lastError tried st =
     tryModels api onChunk onSources B (if A = [] then lastError else caught api (last A))
       (tried @ A) (after_attempts api onChunk onSources A st)"
proof (induction A arbitrary: lastError tried st)
  case Nil
  show ?case by (simp add: after_attempts_def)
next
  case (Cons m A)
  from Cons.prems have "fails_recoverably api m" by simp
  then obtain e where c: "caught api m = Some e" and r: "isRecoverable e"
    by (auto simp: fails_recoverably_def split: option.splits)
  obtain st' where a: "attempt api onChunk onSources m st = (st', Some e)"
    using c snd_attempt[of api onChunk onSources m st] by (cases "attempt api onChunk onSources m st") simp
  have "tryModels api onChunk onSources ((m # A) @ B) lastError tried st =
        tryModels api onChunk onSources (A @ B) (Some e) (tried @ [m]) st'"
    using a r by simp
  also have "\<dots> = tryModels api onChunk onSources B (if A = [] then Some e else caught api (last A))
       ((tried @ [m]) @ A) (after_attempts api onChunk onSources A st')"
    using Cons.prems by (intro Cons.IH) simp
  finally show ?case using a c by (simp add: after_attempts_def)
qed

lemma tryModels_stop:
  assumes "\<not> fails_recoverably api m"
  shows "tryModels api onChunk onSources (m # rest) lastError tried st =
     \<lparr>attempted = tried @ [m],
      final = (case caught api m of
                 None \<Rightarrow> after_attempts api onChunk onSources [m] st
               | Some e \<Rightarrow> onChunk (newlines @ getFriendlyErrorMessage e)
                             (after_attempts api onChunk onSources [m] st)),
      threw = False\<rparr>"
proof (cases "caught api m")
  case None
  then obtain st' where a: "attempt api onChunk onSources m st = (st', None)"
    using snd_attempt[of api onChunk onSources m st] by (cases "attempt api onChunk onSources m st") simp
  then show ?thesis using None by (simp add: after_attempts_def)
next
  case (Some e)
  then obtain st' where a: "attempt api onChunk onSources m st = (st', Some e)"
    using snd_attempt[of api onChunk onSources m st] by (cases "attempt api onChunk onSources m st") simp
  from Some assms have "\<not> isRecoverable e" by (simp add: fails_recoverably_def)
  then show ?thesis using a Some by (simp add: after_attempts_def)
qed

lemma after_attempts_append:
  "after_attempts api onChunk onSources (A @ B) st =
     after_attempts api onChunk onSources B (after_attempts api onChunk onSources A st)"
  by (simp add: after_attempts_def)

lemma tryModels_first_stop:
  assumes A: "\<forall>m\<in>set A. fails_recoverably api m" and m: "\<not> fails_recoverably api m"
  shows "tryModels api onChunk onSources (A @ m # rest) lastError tried st =
     \<lparr>attempted = tried @ A @ [m],
      final = (case caught api m of
                 None \<Rightarrow> after_attempts api onChunk onSources (A @ [m]) st
               | Some e \<Rightarrow> onChunk (newlines @ getFriendlyErrorMessage e)
                             (after_attempts api onChunk onSources (A @ [m]) st)),
      threw = False\<rparr>"
  unfolding tryModels_skip[OF A] tryModels_stop[OF m] after_attempts_append by simp

lemma tryModels_all_fail:
  assumes A: "\<forall>m\<in>set A. fails_recoverably api m" and ne: "A \<noteq> []"
  shows "\<exists>e. caught api (last A) = Some e \<and> isRecoverable e \<and>
     tryModels api onChunk onSources A lastError tried st =
     \<lparr>attempted = tried @ A,
      final = onChunk (newlines @ getFriendlyErrorMessage e) (after_attempts api onChunk onSources A st),
      threw = False\<rparr>"
proof -
  from A ne have "fails_recoverably api (last A)" by simp
  then obtain e where c: "caught api (last A) = Some e" and r: "isRecoverable e"
    by (auto simp: fails_recoverably_def split: option.splits)
  have "tryModels api onChunk onSources (A @ []) lastError tried st =
        tryModels api onChunk onSources [] (caught api (last A)) (tried @ A)
          (after_attempts api onChunk onSources A st)"
    unfolding tryModels_skip[OF A] using ne by simp
  then show ?thesis using c r by simp
qed

lemma tryModels_cases:
  assumes ne: "ms \<noteq> []"
  shows "(\<exists>i<length ms. (\<forall>j<i. fails_recoverably api (ms ! j)) \<and> \<not> fails_recoverably api (ms ! i) \<and>
            tryModels api onChunk onSources ms lastError tried st =
              \<lparr>attempted = tried @ take (Suc i) ms,
               final = (case caught api (ms ! i) of
                          None \<Rightarrow> after_attempts api onChunk onSources (take (Suc i) ms) st
                        | Some e \<Rightarrow> onChunk (newlines @ getFriendlyErrorMessage e)
                                      (after_attempts api onChunk onSources (take (Suc i) ms) st)),
               threw = False\<rparr>) \<or>
         ((\<forall>j<length ms. fails_recoverably api (ms ! j)) \<and>
          (\<exists>e. caught api (last ms) = Some e \<and> isRecoverable e \<and>
            tryModels api onChunk onSources ms lastError tried st =
              \<lparr>attempted = tried @ ms,
               final = onChunk (newlines @ getFriendlyErrorMessage e)
                         (after_attempts api onChunk onSources ms st),
               threw = False\<rparr>))"
proof (cases "\<forall>m\<in>set ms. fails_recoverably api m")
  case True
  then have "\<forall>j<length ms. fails_recoverably api (ms ! j)" by simp
  with tryModels_all_fail[OF True ne, of onChunk onSources lastError tried st]
  show ?thesis by blast
next
  case False
  let ?P = "fails_recoverably api"
  define A where "A = takeWhile ?P ms"
  define m where "m = hd (dropWhile ?P ms)"
  define rest where "rest = tl (dropWhile ?P ms)"
  from False have dne: "dropWhile ?P ms \<noteq> []" by (simp add: dropWhile_eq_Nil_conv)
  then have m: "\<not> ?P m" using hd_dropWhile[of ?P ms] by (simp add: m_def)
  have ms: "ms = A @ m # rest" using dne by (simp add: A_def m_def rest_def)
  have A: "\<forall>a\<in>set A. ?P a" unfolding A_def by (auto dest: set_takeWhileD)
  have i: "length A < length ms" unfolding ms by simp
  have at: "ms ! length A = m" unfolding ms by simp
  have tk: "take (Suc (length A)) ms = A @ [m]" unfolding ms by simp
  have before: "\<forall>j<length A. ?P (ms ! j)"
  proof (intro allI impI)
    fix j assume "j < length A"
    then have "ms ! j = A ! j" "A ! j \<in> set A" unfolding ms by (simp_all add: nth_append)
    with A show "?P (ms ! j)" by simp
  qed
  have "tryModels api onChunk onSources ms lastError tried st =
          \<lparr>attempted = tried @ take (Suc (length A)) ms,
           final = (case caught api (ms ! length A) of
                      None \<Rightarrow> after_attempts api onChunk onSources (take (Suc (length A)) ms) st
                    | Some e \<Rightarrow> onChunk (newlines @ getFriendlyErrorMessage e)
                                  (after_attempts api onChunk onSources (take (Suc (length A)) ms) st)),
           threw = False\<rparr>"
    unfolding tk at using tryModels_first_stop[OF A m, of onChunk onSources rest lastError tried st]
    unfolding ms by simp
  with i before m at show ?thesis by metis
qed

lemma streamResponse_cases:
  "(\<exists>i<length modelsToTry. (\<forall>j<i. fails_recoverably api (modelsToTry ! j)) \<and>
        \<not> fails_recoverably api (modelsToTry ! i) \<and>
        streamResponse api onChunk onSources st =
          \<lparr>attempted = take (Suc i) modelsToTry,
           final = (case caught api (modelsToTry ! i) of
                      None \<Rightarrow> after_attempts api onChunk onSources (take (Suc i) modelsToTry) st
                    | Some e \<Rightarrow> onChunk (newlines @ getFriendlyErrorMessage e)
                                  (after_attempts api onChunk onSources (take (Suc i) modelsToTry) st)),
           threw = False\<rparr>) \<or>
   ((\<forall>j<length modelsToTry. fails_recoverably api (modelsToTry ! j)) \<and>
    (\<exists>e. caught api (last modelsToTry) = Some e \<and> isRecoverable e \<and>
        streamResponse api onChunk onSources st =
          \<lparr>attempted = modelsToTry,
           final = onChunk (newlines @ getFriendlyErrorMessage e)
                     (after_attempts api onChunk onSources modelsToTry st),
           threw = False\<rparr>))"
proof -
  have "modelsToTry \<noteq> []" by (simp add: modelsToTry_def)
  from tryModels_cases[OF this, of api onChunk onSources None "[]" st]
  show ?thesis unfolding streamResponse_def by simp
qed

lemma length_modelsToTry: "length modelsToTry = 3"
  by (simp add: modelsToTry_def)

lemma fails_recoverably_caught:
  "fails_recoverably api m \<longleftrightarrow> (\<exists>e. caught api m = Some e \<and> isRecoverable e)"
  by (auto simp: fails_recoverably_def split: option.splits)

section \<open>Lemmas on the streamed transcript\<close>

lemma chunk_calls_append: "chunk_calls (xs @ ys) = chunk_calls xs @ chunk_calls ys"
  by (induction xs rule: chunk_calls.induct) simp_all

lemma processStream_trace:
  "chunk_calls (processStream cs (\<lambda>t tr. tr @ [OnChunk t]) (Some (\<lambda>s tr. tr @ [OnSources s])) tr0)
     = chunk_calls tr0 @ chunk_texts cs"
proof (induction cs arbitrary: tr0)
  case Nil
  show ?case by (simp add: chunk_texts_def)
next
  case (Cons c cs)
  show ?case
    by (simp add: Cons.IH chunk_calls_append chunk_texts_def Let_def split: option.splits)
qed

lemma length_chunk_texts:
  "length (chunk_texts cs) = length (filter (\<lambda>c. truthy (chunk_text c)) cs)"
  by (induction cs) (simp_all add: chunk_texts_def truthy_def split: option.splits)

lemma streamed_into_refl: "streamed_into b None m m"
  by (simp add: streamed_into_def)

lemma streamed_into_onChunk:
  "list_all2 (streamed_into b (Some (accumulatedText u @ t))) (ui_messages u)
     (ui_messages (onChunk_cb b t u))"
  by (simp add: onChunk_cb_def Let_def list_all2_map2 streamed_into_def list_all2_same)

lemma streamed_into_onSources:
  "list_all2 (streamed_into b None) (ui_messages u) (ui_messages (onSources_cb b s u))"
  by (simp add: onSources_cb_def Let_def list_all2_map2 streamed_into_def list_all2_same)

lemma acc_onChunk: "accumulatedText (onChunk_cb b t u) = accumulatedText u @ t"
  by (simp add: onChunk_cb_def Let_def)

lemma acc_onSources: "accumulatedText (onSources_cb b s u) = accumulatedText u"
  by (simp add: onSources_cb_def Let_def)

lemma streamed_into_trans:
  "streamed_into b c1 m1 m2 \<Longrightarrow> streamed_into b c2 m2 m3 \<Longrightarrow>
   streamed_into b (case c2 of None \<Rightarrow> c1 | Some c \<Rightarrow> Some c) m1 m3"
  by (auto simp: streamed_into_def split: option.splits if_splits)

lemma list_all2_streamed_into_trans:
  assumes "list_all2 (streamed_into b c1) xs ys" "list_all2 (streamed_into b c2) ys zs"
  shows "list_all2 (streamed_into b (case c2 of None \<Rightarrow> c1 | Some c \<Rightarrow> Some c)) xs zs"
proof -
  have "list_all2 (streamed_into b c1 OO streamed_into b c2) xs zs"
    using assms by (auto simp: list.rel_compp relcompp.simps)
  then show ?thesis
    by (rule list_all2_mono) (auto intro: streamed_into_trans)
qed

lemma processStream_Cons:
  "processStream (c # cs) onChunk onSources st =
     processStream cs onChunk onSources (processStream [c] onChunk onSources st)"
  by (simp add: Let_def)

lemma chunk_texts_Cons: "chunk_texts (c # cs) = chunk_texts [c] @ chunk_texts cs"
  by (simp add: chunk_texts_def)

lemma processStream_ui_single:
  "accumulatedText (processStream [c] (onChunk_cb b) (Some (onSources_cb b)) u) =
     accumulatedText u @ concat (chunk_texts [c]) \<and>
   list_all2 (streamed_into b
       (if chunk_texts [c] = [] then None else Some (accumulatedText u @ concat (chunk_texts [c]))))
     (ui_messages u) (ui_messages (processStream [c] (onChunk_cb b) (Some (onSources_cb b)) u))"
proof -
  define u1 where "u1 = (case chunk_text c of None \<Rightarrow> u
                          | Some t \<Rightarrow> (if t \<noteq> [] then onChunk_cb b t u else u))"
  define u2 where "u2 = (case groundingChunks c of None \<Rightarrow> u1
                          | Some gcs \<Rightarrow> (if length (grounding_sources gcs) > 0
                                         then onSources_cb b (grounding_sources gcs) u1 else u1))"
  have p: "processStream [c] (onChunk_cb b) (Some (onSources_cb b)) u = u2"
    by (simp add: u1_def u2_def Let_def split: option.splits)
  have a1: "accumulatedText u1 = accumulatedText u @ concat (chunk_texts [c])"
    by (simp add: u1_def chunk_texts_def acc_onChunk split: option.splits)
  have s1: "list_all2 (streamed_into b
       (if chunk_texts [c] = [] then None else Some (accumulatedText u @ concat (chunk_texts [c]))))
     (ui_messages u) (ui_messages u1)"
    using streamed_into_onChunk[of b u]
    by (simp add: u1_def chunk_texts_def list_all2_same streamed_into_refl split: option.splits)
  have a2: "accumulatedText u2 = accumulatedText u1"
    by (simp add: u2_def acc_onSources split: option.splits)
  have s2: "list_all2 (streamed_into b None) (ui_messages u1) (ui_messages u2)"
    using streamed_into_onSources[of b u1]
    by (simp add: u2_def list_all2_same streamed_into_refl split: option.splits)
  from list_all2_streamed_into_trans[OF s1 s2] a1 a2 show ?thesis
    unfolding p by simp
qed

lemma processStream_ui:
  "accumulatedText (processStream cs (onChunk_cb b) (Some (onSources_cb b)) u) =
     accumulatedText u @ concat (chunk_texts cs) \<and>
   list_all2 (streamed_into b
       (if chunk_texts cs = [] then None else Some (accumulatedText u @ concat (chunk_texts cs))))
     (ui_messages u) (ui_messages (processStream cs (onChunk_cb b) (Some (onSources_cb b)) u))"
proof (induction cs arbitrary: u)
  case Nil
  show ?case by (simp add: chunk_texts_def list_all2_same streamed_into_refl)
next
  case (Cons c cs)
  let ?u1 = "processStream [c] (onChunk_cb b) (Some (onSources_cb b)) u"
  let ?u2 = "processStream cs (onChunk_cb b) (Some (onSources_cb b)) ?u1"
  from processStream_ui_single[of c b u]
  have a1: "accumulatedText ?u1 = accumulatedText u @ concat (chunk_texts [c])"
    and s1: "list_all2 (streamed_into b
       (if chunk_texts [c] = [] then None else Some (accumulatedText u @ concat (chunk_texts [c]))))
     (ui_messages u) (ui_messages ?u1)"
    by blast+
  from Cons.IH[of ?u1]
  have a2: "accumulatedText ?u2 = accumulatedText ?u1 @ concat (chunk_texts cs)"
    and s2: "list_all2 (streamed_into b
       (if chunk_texts cs = [] then None else Some (accumulatedText ?u1 @ concat (chunk_texts cs))))
     (ui_messages ?u1) (ui_messages ?u2)"
    by blast+
  have p: "processStream (c # cs) (onChunk_cb b) (Some (onSources_cb b)) u = ?u2"
    by (rule processStream_Cons)
  have a: "accumulatedText ?u2 = accumulatedText u @ concat (chunk_texts (c # cs))"
    using a1 a2 chunk_texts_Cons[of c cs] by simp
  have "list_all2 (streamed_into b
       (if chunk_texts (c # cs) = [] then None
        else Some (accumulatedText u @ concat (chunk_texts (c # cs)))))
     (ui_messages u) (ui_messages ?u2)"
    using list_all2_streamed_into_trans[OF s1 s2] a1 chunk_texts_Cons[of c cs]
    by (auto split: if_splits)
  with a show ?case unfolding p by blast
qed

lemma accumulatedI:
  assumes "accumulatedText u' = accumulatedText u @ d"
    and "list_all2 (streamed_into b (if d = [] then None else Some (accumulatedText u')))
           (ui_messages u) (ui_messages u')"
  shows "accumulated b u u'"
  using assms by (auto simp: accumulated_def split: if_splits)

lemma accumulatedD:
  assumes "accumulated b u u'"
  obtains d where "accumulatedText u' = accumulatedText u @ d"
    and "list_all2 (streamed_into b (if d = [] then None else Some (accumulatedText u')))
           (ui_messages u) (ui_messages u')"
proof -
  define d where "d = drop (length (accumulatedText u)) (accumulatedText u')"
  from assms have t: "take (length (accumulatedText u)) (accumulatedText u') = accumulatedText u"
    by (simp add: accumulated_def)
  have e: "accumulatedText u' = accumulatedText u @ d"
    unfolding d_def using t append_take_drop_id[of "length (accumulatedText u)" "accumulatedText u'"]
    by simp
  then have "d = [] \<longleftrightarrow> length (accumulatedText u') = length (accumulatedText u)" by auto
  with assms have "list_all2 (streamed_into b (if d = [] then None else Some (accumulatedText u')))
           (ui_messages u) (ui_messages u')"
    by (simp add: accumulated_def)
  with e that show thesis by blast
qed

lemma accumulated_refl: "accumulated b u u"
  by (simp add: accumulated_def list_all2_same streamed_into_refl)

lemma accumulated_trans:
  assumes "accumulated b u u1" "accumulated b u1 u2"
  shows "accumulated b u u2"
proof -
  from assms(1) obtain d1 where a1: "accumulatedText u1 = accumulatedText u @ d1"
    and s1: "list_all2 (streamed_into b (if d1 = [] then None else Some (accumulatedText u1)))
           (ui_messages u) (ui_messages u1)"
    by (rule accumulatedD)
  from assms(2) obtain d2 where a2: "accumulatedText u2 = accumulatedText u1 @ d2"
    and s2: "list_all2 (streamed_into b (if d2 = [] then None else Some (accumulatedText u2)))
           (ui_messages u1) (ui_messages u2)"
    by (rule accumulatedD)
  have a: "accumulatedText u2 = accumulatedText u @ (d1 @ d2)" using a1 a2 by simp
  have "list_all2 (streamed_into b (if d1 @ d2 = [] then None else Some (accumulatedText u2)))
           (ui_messages u) (ui_messages u2)"
    using list_all2_streamed_into_trans[OF s1 s2] a2 by (auto split: if_splits)
  with a show ?thesis by (rule accumulatedI)
qed

lemma chunk_texts_nonempty: "concat (chunk_texts cs) = [] \<longleftrightarrow> chunk_texts cs = []"
  by (induction cs) (auto simp: chunk_texts_def split: option.splits)

lemma accumulated_processStream:
  "accumulated b u (processStream cs (onChunk_cb b) (Some (onSources_cb b)) u)"
proof (rule accumulatedI)
  let ?u' = "processStream cs (onChunk_cb b) (Some (onSources_cb b)) u"
  from processStream_ui[of cs b u]
  have e: "accumulatedText ?u' = accumulatedText u @ concat (chunk_texts cs)"
    and l: "list_all2 (streamed_into b
       (if chunk_texts cs = [] then None else Some (accumulatedText u @ concat (chunk_texts cs))))
     (ui_messages u) (ui_messages ?u')"
    by blast+
  show "accumulatedText ?u' = accumulatedText u @ concat (chunk_texts cs)" by (rule e)
  show "list_all2 (streamed_into b
           (if concat (chunk_texts cs) = [] then None else Some (accumulatedText ?u')))
         (ui_messages u) (ui_messages ?u')"
    unfolding chunk_texts_nonempty e by (rule l)
qed

lemma accumulated_onChunk: "t \<noteq> [] \<Longrightarrow> accumulated b u (onChunk_cb b t u)"
  using streamed_into_onChunk[of b u t]
  by (intro accumulatedI[where d = t]) (simp_all add: acc_onChunk)

lemma accumulated_attempt:
  "accumulated b u (fst (attempt api (onChunk_cb b) (Some (onSources_cb b)) m u))"
  by (simp add: attempt_def accumulated_refl accumulated_processStream split: sum.splits)

lemma friendly_nonempty: "newlines @ getFriendlyErrorMessage e \<noteq> []"
  by (simp add: newlines_def)

lemma accumulated_tryModels:
  "accumulated b u (final (tryModels api (onChunk_cb b) (Some (onSources_cb b)) ms le tried u))"
proof (induction ms arbitrary: le tried u)
  case Nil
  show ?case
    by (cases le) (simp_all add: accumulated_refl accumulated_onChunk[OF friendly_nonempty])
next
  case (Cons m ms)
  obtain u' c where a: "attempt api (onChunk_cb b) (Some (onSources_cb b)) m u = (u', c)"
    by (cases "attempt api (onChunk_cb b) (Some (onSources_cb b)) m u")
  then have s: "accumulated b u u'"
    using accumulated_attempt[of b u api m] by simp
  show ?case
  proof (cases c)
    case None
    with a s show ?thesis by simp
  next
    case (Some e)
    show ?thesis
    proof (cases "isRecoverable e")
      case False
      have "accumulated b u' (onChunk_cb b (newlines @ getFriendlyErrorMessage e) u')"
        by (rule accumulated_onChunk) (rule friendly_nonempty)
      with s have "accumulated b u (onChunk_cb b (newlines @ getFriendlyErrorMessage e) u')"
        by (rule accumulated_trans)
      with a Some False show ?thesis by simp
    next
      case True
      have "accumulated b u' (final (tryModels api (onChunk_cb b) (Some (onSources_cb b)) ms
              (Some e) (tried @ [m]) u'))"
        by (rule Cons.IH)
      with s have "accumulated b u (final (tryModels api (onChunk_cb b) (Some (onSources_cb b)) ms
              (Some e) (tried @ [m]) u'))"
        by (rule accumulated_trans)
      with a Some True show ?thesis by simp
    qed
  qed
qed

lemma streamResponse_returns: "\<not> threw (streamResponse api onChunk onSources st)"
  using streamResponse_cases[of api onChunk onSources st] by auto

lemma processResponse_accumulated:
  "content (last (ui_messages (processResponse api b u0))) =
     accumulatedText (processResponse api b u0) \<and>
   list_all2 (streamed_into b
       (if accumulatedText (processResponse api b u0) = [] then None
        else Some (accumulatedText (processResponse api b u0))))
     (ui_messages u0 @ [botMsgPlaceholder b]) (ui_messages (processResponse api b u0))"
proof -
  define u2 where "u2 = u0\<lparr>ui_messages := ui_messages u0 @ [botMsgPlaceholder b], isLoading := True,
                          accumulatedText := [], collectedSources := []\<rparr>"
  define u3 where "u3 = final (streamResponse api (onChunk_cb b) (Some (onSources_cb b)) u2)"
  let ?v = "processResponse api b u0"
  have v: "?v = u3\<lparr>isLoading := False,
            ui_messages := map (\<lambda>m. if id_msg m = b then m\<lparr>isStreaming := Some False\<rparr> else m)
                             (ui_messages u3)\<rparr>"
    using streamResponse_returns[of api "onChunk_cb b" "Some (onSources_cb b)" u2]
    by (simp add: processResponse_def Let_def u2_def u3_def)
  have acc: "accumulatedText ?v = accumulatedText u3" by (simp add: v)
  have "accumulated b u2 u3"
    unfolding u3_def streamResponse_def by (rule accumulated_tryModels)
  then obtain d where a: "accumulatedText u3 = accumulatedText u2 @ d"
    and s1: "list_all2 (streamed_into b (if d = [] then None else Some (accumulatedText u3)))
           (ui_messages u2) (ui_messages u3)"
    by (rule accumulatedD)
  have d: "d = accumulatedText u3" using a by (simp add: u2_def)
  have s2: "list_all2 (streamed_into b None) (ui_messages u3) (ui_messages ?v)"
    unfolding v by (simp add: list_all2_map2 streamed_into_def list_all2_same)
  have s: "list_all2 (streamed_into b
       (if accumulatedText ?v = [] then None else Some (accumulatedText ?v)))
     (ui_messages u0 @ [botMsgPlaceholder b]) (ui_messages ?v)"
    using list_all2_streamed_into_trans[OF s1 s2] d acc by (auto simp: u2_def)
  then obtain ys zs where e: "ui_messages ?v = ys @ zs"
    and zs: "list_all2 (streamed_into b
       (if accumulatedText ?v = [] then None else Some (accumulatedText ?v))) [botMsgPlaceholder b] zs"
    by (auto simp: list_all2_append1)
  from zs obtain z where z: "zs = [z]"
    and pz: "streamed_into b (if accumulatedText ?v = [] then None else Some (accumulatedText ?v))
               (botMsgPlaceholder b) z"
    by (auto simp: list_all2_Cons1)
  from pz have "content z = accumulatedText ?v"
    by (auto simp: streamed_into_def botMsgPlaceholder_def split: if_splits)
  with e z s show ?thesis by simp
qed

lemma record_chunk_calls: "chunk_calls (record_chunk t tr) = chunk_calls tr @ [t]"
  by (simp add: record_chunk_def chunk_calls_append)

lemma processStream_recorded:
  "chunk_calls (processStream cs record_chunk (Some record_sources) tr) =
     chunk_calls tr @ chunk_texts cs"
proof -
  have "record_chunk = (\<lambda>t tr. tr @ [OnChunk t])" "record_sources = (\<lambda>s tr. tr @ [OnSources s])"
    by (auto simp: record_chunk_def record_sources_def fun_eq_iff)
  then show ?thesis using processStream_trace[of cs tr] by simp
qed

lemma attempt_recorded:
  "chunk_calls (fst (attempt api record_chunk (Some record_sources) m tr)) =
     chunk_calls tr @ stream_texts api m"
  by (simp add: attempt_def stream_texts_def processStream_recorded split: sum.splits)

lemma after_attempts_recorded:
  "chunk_calls (after_attempts api record_chunk (Some record_sources) ms tr) =
     chunk_calls tr @ concat (map (stream_texts api) ms)"
proof (induction ms arbitrary: tr)
  case Nil
  show ?case by (simp add: after_attempts_def)
next
  case (Cons m ms)
  have "after_attempts api record_chunk (Some record_sources) (m # ms) tr =
        after_attempts api record_chunk (Some record_sources) ms
          (fst (attempt api record_chunk (Some record_sources) m tr))"
    by (simp add: after_attempts_def)
  then show ?case by (simp add: Cons.IH attempt_recorded)
qed

lemma attempt_accumulates:
  "accumulatedText (fst (attempt api (onChunk_cb b) (Some (onSources_cb b)) m u)) =
     accumulatedText u @ concat (stream_texts api m)"
  using processStream_ui
  by (simp add: attempt_def stream_texts_def split: sum.splits)

lemma after_attempts_accumulates:
  "accumulatedText (after_attempts api (onChunk_cb b) (Some (onSources_cb b)) ms u) =
     accumulatedText u @ concat (concat (map (stream_texts api) ms))"
proof (induction ms arbitrary: u)
  case Nil
  show ?case by (simp add: after_attempts_def)
next
  case (Cons m ms)
  have "after_attempts api (onChunk_cb b) (Some (onSources_cb b)) (m # ms) u =
        after_attempts api (onChunk_cb b) (Some (onSources_cb b)) ms
          (fst (attempt api (onChunk_cb b) (Some (onSources_cb b)) m u))"
    by (simp add: after_attempts_def)
  then show ?case by (simp add: Cons.IH attempt_accumulates)
qed

lemma streamResponse_requested:
  "streamResponse api onChunk onSources st =
     \<lparr>attempted = requested api,
      final = (case caught api (last (requested api)) of
                 None \<Rightarrow> after_attempts api onChunk onSources (requested api) st
               | Some e \<Rightarrow> onChunk (newlines @ getFriendlyErrorMessage e)
                             (after_attempts api onChunk onSources (requested api) st)),
      threw = False\<rparr>"
proof -
  let ?P = "fails_recoverably api"
  from streamResponse_cases[of api onChunk onSources st]
  consider
    (stop) i where "i < length modelsToTry" "\<forall>j<i. ?P (modelsToTry ! j)"
      "\<not> ?P (modelsToTry ! i)"
      "streamResponse api onChunk onSources st =
         \<lparr>attempted = take (Suc i) modelsToTry,
           final = (case caught api (modelsToTry ! i) of
                      None \<Rightarrow> after_attempts api onChunk onSources (take (Suc i) modelsToTry) st
                    | Some e \<Rightarrow> onChunk (newlines @ getFriendlyErrorMessage e)
                                  (after_attempts api onChunk onSources (take (Suc i) modelsToTry) st)),
           threw = False\<rparr>"
  | (all) e where "\<forall>j<length modelsToTry. ?P (modelsToTry ! j)"
      "caught api (last modelsToTry) = Some e"
      "streamResponse api onChunk onSources st =
         \<lparr>attempted = modelsToTry,
           final = onChunk (newlines @ getFriendlyErrorMessage e)
                     (after_attempts api onChunk onSources modelsToTry st),
           threw = False\<rparr>"
    by auto
  then show ?thesis
  proof cases
    case (stop i)
    have "takeWhile ?P modelsToTry = take i modelsToTry"
      using stop(1,2,3) by (intro takeWhile_eq_take_P_nth) auto
    then have r: "requested api = take (Suc i) modelsToTry"
      using stop(1) by (simp add: requested_def)
    have "last (take (Suc i) modelsToTry) = modelsToTry ! i"
      using stop(1) by (simp add: take_Suc_conv_app_nth)
    then show ?thesis unfolding r by (simp add: stop(4))
  next
    case (all e)
    have "\<forall>m\<in>set modelsToTry. ?P m"
      using all(1) by (auto simp: in_set_conv_nth)
    then have tw: "takeWhile ?P modelsToTry = modelsToTry" by (simp add: takeWhile_eq_all_conv)
    have r: "requested api = modelsToTry" unfolding requested_def tw by simp
    show ?thesis unfolding r by (simp add: all(2,3))
  qed
qed

lemma streamResponse_recorded:
  "chunk_calls (final (streamResponse api record_chunk (Some record_sources) [])) =
     delivered_texts api"
  unfolding streamResponse_requested delivered_texts_def
  by (simp add: after_attempts_recorded record_chunk_calls split: option.splits)

lemma streamResponse_accumulates:
  "accumulatedText (final (streamResponse api (onChunk_cb b) (Some (onSources_cb b)) u)) =
     accumulatedText u @ concat (delivered_texts api)"
  unfolding streamResponse_requested delivered_texts_def
  by (simp add: after_attempts_accumulates acc_onChunk split: option.splits)

lemma stream_texts_nonempty: "t \<in> set (stream_texts api m) \<Longrightarrow> t \<noteq> []"
  by (auto simp: stream_texts_def chunk_texts_def split: sum.splits option.splits if_splits)

lemma concat_nonempty: "\<forall>x\<in>set xss. x \<noteq> [] \<Longrightarrow> concat xss = [] \<longleftrightarrow> xss = []"
  by (cases xss) auto

lemma delivered_texts_elem: "t \<in> set (delivered_texts api) \<Longrightarrow> t \<noteq> []"
  by (auto simp: delivered_texts_def newlines_def dest: stream_texts_nonempty split: option.splits)

lemma delivered_texts_nonempty: "concat (delivered_texts api) = [] \<longleftrightarrow> delivered_texts api = []"
  by (rule concat_nonempty) (auto dest: delivered_texts_elem)

lemma processResponse_text:
  "accumulatedText (processResponse api b u0) = concat (delivered_texts api)"
proof -
  define u2 where "u2 = u0\<lparr>ui_messages := ui_messages u0 @ [botMsgPlaceholder b], isLoading := True,
                          accumulatedText := [], collectedSources := []\<rparr>"
  have "accumulatedText (processResponse api b u0) =
        accumulatedText (final (streamResponse api (onChunk_cb b) (Some (onSources_cb b)) u2))"
    using streamResponse_returns[of api "onChunk_cb b" "Some (onSources_cb b)" u2]
    by (simp add: processResponse_def Let_def u2_def)
  then show ?thesis by (simp add: streamResponse_accumulates u2_def)
qed

lemma delivered_first_completes:
  assumes "api (hd modelsToTry) = Inr \<lparr>chunks = cs, failure = None\<rparr>"
  shows "delivered_texts api = chunk_texts cs"
proof -
  have c: "caught api ''gemini-3-pro-preview'' = None"
    using assms by (simp add: caught_def modelsToTry_def)
  then have "\<not> fails_recoverably api ''gemini-3-pro-preview''"
    by (simp add: fails_recoverably_def)
  then have "requested api = [''gemini-3-pro-preview'']"
    by (simp add: requested_def modelsToTry_def)
  then show ?thesis using c assms
    by (simp add: delivered_texts_def stream_texts_def modelsToTry_def)
qed

section \<open>The fallback chain of streamResponse\<close>

text \<open>
  C1: \<^verbatim>\<open>streamResponse\<close> requests the models in the hardcoded order
  \<^verbatim>\<open>gemini-3-pro-preview\<close>, \<^verbatim>\<open>gemini-3-flash-preview\<close>, \<^verbatim>\<open>gemini-2.5-flash-latest\<close>: the
  models it has requested are the first one, two or three of that list. A model is
  requested only if every model before it failed with a recoverable error. If the
  stream of a requested model completes, the call returns there: no further model is
  requested, the state is the one the callbacks reached, and nothing is thrown.
\<close>

theorem streamResponse_model_order:
  "modelsToTry = [''gemini-3-pro-preview'', ''gemini-3-flash-preview'', ''gemini-2.5-flash-latest''] \<and>
   (\<exists>n\<in>{1, 2, 3}. attempted (streamResponse api onChunk onSources st) = take n modelsToTry) \<and>
   (\<forall>i<length (attempted (streamResponse api onChunk onSources st)). \<forall>j<i.
      \<exists>e. caught api (modelsToTry ! j) = Some e \<and> isRecoverable e) \<and>
   (\<forall>i<length (attempted (streamResponse api onChunk onSources st)).
      caught api (modelsToTry ! i) = None \<longrightarrow>
        streamResponse api onChunk onSources st =
          \<lparr>attempted = take (Suc i) modelsToTry,
           final = after_attempts api onChunk onSources (take (Suc i) modelsToTry) st,
           threw = False\<rparr>)"
proof -
  let ?r = "streamResponse api onChunk onSources st"
  have m: "modelsToTry = [''gemini-3-pro-preview'', ''gemini-3-flash-preview'', ''gemini-2.5-flash-latest'']"
    by (rule modelsToTry_def)
  from streamResponse_cases[of api onChunk onSources st]
  consider
    (stop) i where "i < length modelsToTry" "\<forall>j<i. fails_recoverably api (modelsToTry ! j)"
      "\<not> fails_recoverably api (modelsToTry ! i)"
      "?r = \<lparr>attempted = take (Suc i) modelsToTry,
           final = (case caught api (modelsToTry ! i) of
                      None \<Rightarrow> after_attempts api onChunk onSources (take (Suc i) modelsToTry) st
                    | Some e \<Rightarrow> onChunk (newlines @ getFriendlyErrorMessage e)
                                  (after_attempts api onChunk onSources (take (Suc i) modelsToTry) st)),
           threw = False\<rparr>"
  | (all) "\<forall>j<length modelsToTry. fails_recoverably api (modelsToTry ! j)"
      "attempted ?r = modelsToTry"
    by auto
  then have rest: "(\<exists>n\<in>{1, 2, 3}. attempted ?r = take n modelsToTry) \<and>
   (\<forall>i<length (attempted ?r). \<forall>j<i. fails_recoverably api (modelsToTry ! j)) \<and>
   (\<forall>i<length (attempted ?r). caught api (modelsToTry ! i) = None \<longrightarrow>
        ?r = \<lparr>attempted = take (Suc i) modelsToTry,
           final = after_attempts api onChunk onSources (take (Suc i) modelsToTry) st,
           threw = False\<rparr>)"
  proof cases
    case (stop i)
    have att: "attempted ?r = take (Suc i) modelsToTry" by (simp add: stop(4))
    have len: "length (attempted ?r) = Suc i" using stop(1) by (simp add: att)
    have "Suc i \<in> {1, 2, 3}" using stop(1) by (auto simp: length_modelsToTry)
    then have 1: "\<exists>n\<in>{1, 2, 3}. attempted ?r = take n modelsToTry" using att by blast
    have 2: "\<forall>k<length (attempted ?r). \<forall>j<k. fails_recoverably api (modelsToTry ! j)"
      using stop(2) len by auto
    have 3: "\<forall>k<length (attempted ?r). caught api (modelsToTry ! k) = None \<longrightarrow>
        ?r = \<lparr>attempted = take (Suc k) modelsToTry,
           final = after_attempts api onChunk onSources (take (Suc k) modelsToTry) st,
           threw = False\<rparr>"
    proof (intro allI impI)
      fix k assume k: "k < length (attempted ?r)" and c: "caught api (modelsToTry ! k) = None"
      from c have "\<not> fails_recoverably api (modelsToTry ! k)" by (simp add: fails_recoverably_def)
      with stop(2) have "\<not> k < i" by blast
      with k len have "k = i" by simp
      with c stop(4) show "?r = \<lparr>attempted = take (Suc k) modelsToTry,
           final = after_attempts api onChunk onSources (take (Suc k) modelsToTry) st,
           threw = False\<rparr>" by simp
    qed
    from 1 2 3 show ?thesis by blast
  next
    case all
    have 1: "\<exists>n\<in>{1, 2, 3}. attempted ?r = take n modelsToTry"
      using all(2) by (simp add: length_modelsToTry[symmetric])
    have 2: "\<forall>k<length (attempted ?r). \<forall>j<k. fails_recoverably api (modelsToTry ! j)"
      using all by auto
    have 3: "\<forall>k<length (attempted ?r). caught api (modelsToTry ! k) \<noteq> None"
      using all by (auto simp: fails_recoverably_caught)
    from 1 2 3 show ?thesis by blast
  qed
  with m show ?thesis unfolding fails_recoverably_caught by blast
qed

theorem streamResponse_model_order_witness:
  "attempted (streamResponse second_model_answers record_chunk (Some record_sources) []) =
     [''gemini-3-pro-preview'', ''gemini-3-flash-preview''] \<and>
   (\<exists>e. caught second_model_answers (modelsToTry ! 0) = Some e \<and> isRecoverable e) \<and>
   caught second_model_answers (modelsToTry ! 1) = None \<and>
   final (streamResponse second_model_answers record_chunk (Some record_sources) []) =
     [OnChunk ''Once '', OnChunk ''upon'']"
proof -
  let ?r = "streamResponse second_model_answers record_chunk (Some record_sources) []"
  note t = streamResponse_model_order[of second_model_answers record_chunk "Some record_sources" "[]"]
  have l: "1 < length (attempted ?r)" by code_simp
  have c: "caught second_model_answers (modelsToTry ! 1) = None" by code_simp
  from t l have e: "\<exists>e. caught second_model_answers (modelsToTry ! 0) = Some e \<and> isRecoverable e"
    by blast
  from t l c have r: "?r = \<lparr>attempted = take (Suc 1) modelsToTry,
      final = after_attempts second_model_answers record_chunk (Some record_sources)
                (take (Suc 1) modelsToTry) [],
      threw = False\<rparr>"
    by blast
  have k: "take (Suc 1) modelsToTry = [''gemini-3-pro-preview'', ''gemini-3-flash-preview'']"
    by code_simp
  have f: "after_attempts second_model_answers record_chunk (Some record_sources)
             [''gemini-3-pro-preview'', ''gemini-3-flash-preview''] [] =
           [OnChunk ''Once '', OnChunk ''upon'']"
    by code_simp
  from e c r k f show ?thesis by simp
qed

text \<open>
  C2: an error is recoverable if and only if \<^verbatim>\<open>error.toString() + JSON.stringify(error)\<close>
  contains one of \<^verbatim>\<open>403\<close>, \<^verbatim>\<open>429\<close>, \<^verbatim>\<open>503\<close>, \<^verbatim>\<open>not found\<close>, \<^verbatim>\<open>PERMISSION_DENIED\<close>,
  \<^verbatim>\<open>RESOURCE_EXHAUSTED\<close>. When the models before a model all failed recoverably and
  that model fails with the error \<open>e\<close>: if \<open>e\<close> is not recoverable, the call passes the
  friendly message of \<open>e\<close> to \<^verbatim>\<open>onChunk\<close> and returns, having requested no later model;
  if \<open>e\<close> is recoverable, the next model of the chain is requested, and after the last
  model the friendly message of \<open>e\<close> is passed to \<^verbatim>\<open>onChunk\<close>.
\<close>

theorem streamResponse_retry_rule:
  "(isRecoverable e \<longleftrightarrow>
      (\<exists>sub\<in>set recoverable_markers. \<exists>p q. err_toString e @ err_json e = p @ sub @ q)) \<and>
   (\<forall>i<length modelsToTry.
      (\<forall>j<i. fails_recoverably api (modelsToTry ! j)) \<and> caught api (modelsToTry ! i) = Some e \<longrightarrow>
      (if isRecoverable e then
         (if Suc i < length modelsToTry then
            Suc i < length (attempted (streamResponse api onChunk onSources st)) \<and>
            attempted (streamResponse api onChunk onSources st) ! Suc i = modelsToTry ! Suc i
          else
            streamResponse api onChunk onSources st =
              \<lparr>attempted = modelsToTry,
               final = onChunk (newlines @ getFriendlyErrorMessage e)
                         (after_attempts api onChunk onSources modelsToTry st),
               threw = False\<rparr>)
       else
         streamResponse api onChunk onSources st =
           \<lparr>attempted = take (Suc i) modelsToTry,
            final = onChunk (newlines @ getFriendlyErrorMessage e)
                      (after_attempts api onChunk onSources (take (Suc i) modelsToTry) st),
            threw = False\<rparr>))"
proof (intro conjI allI impI)
  show "isRecoverable e \<longleftrightarrow>
      (\<exists>sub\<in>set recoverable_markers. \<exists>p q. err_toString e @ err_json e = p @ sub @ q)"
    by (rule isRecoverable_iff)
next
  fix i
  let ?r = "streamResponse api onChunk onSources st"
  assume i: "i < length modelsToTry"
    and h: "(\<forall>j<i. fails_recoverably api (modelsToTry ! j)) \<and> caught api (modelsToTry ! i) = Some e"
  then have before: "\<forall>j<i. fails_recoverably api (modelsToTry ! j)"
    and c: "caught api (modelsToTry ! i) = Some e" by blast+
  have fr: "fails_recoverably api (modelsToTry ! i) \<longleftrightarrow> isRecoverable e"
    using c by (simp add: fails_recoverably_def)
  from streamResponse_cases[of api onChunk onSources st]
  consider
    (stop) k where "k < length modelsToTry" "\<forall>j<k. fails_recoverably api (modelsToTry ! j)"
      "\<not> fails_recoverably api (modelsToTry ! k)"
      "?r = \<lparr>attempted = take (Suc k) modelsToTry,
           final = (case caught api (modelsToTry ! k) of
                      None \<Rightarrow> after_attempts api onChunk onSources (take (Suc k) modelsToTry) st
                    | Some e \<Rightarrow> onChunk (newlines @ getFriendlyErrorMessage e)
                                  (after_attempts api onChunk onSources (take (Suc k) modelsToTry) st)),
           threw = False\<rparr>"
  | (all) e' where "\<forall>j<length modelsToTry. fails_recoverably api (modelsToTry ! j)"
      "caught api (last modelsToTry) = Some e'"
      "?r = \<lparr>attempted = modelsToTry,
           final = onChunk (newlines @ getFriendlyErrorMessage e')
                     (after_attempts api onChunk onSources modelsToTry st),
           threw = False\<rparr>"
    by auto
  then show "if isRecoverable e then
         (if Suc i < length modelsToTry then
            Suc i < length (attempted ?r) \<and> attempted ?r ! Suc i = modelsToTry ! Suc i
          else
            ?r = \<lparr>attempted = modelsToTry,
               final = onChunk (newlines @ getFriendlyErrorMessage e)
                         (after_attempts api onChunk onSources modelsToTry st),
               threw = False\<rparr>)
       else
         ?r = \<lparr>attempted = take (Suc i) modelsToTry,
            final = onChunk (newlines @ getFriendlyErrorMessage e)
                      (after_attempts api onChunk onSources (take (Suc i) modelsToTry) st),
            threw = False\<rparr>"
  proof cases
    case (stop k)
    have "\<not> k < i" using before stop(3) by blast
    then consider "k = i" | "i < k" by linarith
    then show ?thesis
    proof cases
      case 1
      with stop(3) fr have "\<not> isRecoverable e" by simp
      then show ?thesis using stop(4) c 1 by simp
    next
      case 2
      with stop(2) fr have r: "isRecoverable e" by simp
      have "Suc i < length modelsToTry" using 2 stop(1) by simp
      moreover have "Suc i < length (attempted ?r)" using 2 stop(1) by (simp add: stop(4))
      moreover have "attempted ?r ! Suc i = modelsToTry ! Suc i" using 2 by (simp add: stop(4))
      ultimately show ?thesis using r by simp
    qed
  next
    case (all e')
    from all(1) i fr have r: "isRecoverable e" by simp
    show ?thesis
    proof (cases "Suc i < length modelsToTry")
      case True
      then show ?thesis using r by (simp add: all(3))
    next
      case False
      with i have "i = length modelsToTry - 1" by simp
      then have "modelsToTry ! i = last modelsToTry"
        by (simp add: last_conv_nth modelsToTry_def)
      with c all(2) have "e' = e" by simp
      then show ?thesis using r False all(3) by simp
    qed
  qed
qed

theorem streamResponse_retry_rule_witness:
  "isRecoverable quota_error \<and> \<not> isRecoverable bad_request \<and>
   caught second_model_rejects (modelsToTry ! 0) = Some quota_error \<and>
   caught second_model_rejects (modelsToTry ! 1) = Some bad_request \<and>
   attempted (streamResponse second_model_rejects record_chunk (Some record_sources) []) ! 1 =
     ''gemini-3-flash-preview'' \<and>
   streamResponse second_model_rejects record_chunk (Some record_sources) [] =
     \<lparr>attempted = [''gemini-3-pro-preview'', ''gemini-3-flash-preview''],
      final = [OnChunk (newlines @ ''[System Error: 400 INVALID_ARGUMENT]'')],
      threw = False\<rparr>"
proof -
  let ?r = "streamResponse second_model_rejects record_chunk (Some record_sources) []"
  note t0 = streamResponse_retry_rule[of quota_error second_model_rejects record_chunk
              "Some record_sources" "[]"]
  note t1 = streamResponse_retry_rule[of bad_request second_model_rejects record_chunk
              "Some record_sources" "[]"]
  have q: "isRecoverable quota_error" by code_simp
  have b: "\<not> isRecoverable bad_request" by code_simp
  have c0: "caught second_model_rejects (modelsToTry ! 0) = Some quota_error" by code_simp
  have c1: "caught second_model_rejects (modelsToTry ! 1) = Some bad_request" by code_simp
  have f0: "fails_recoverably second_model_rejects (modelsToTry ! 0)" by code_simp
  have len: "length modelsToTry = 3" by (rule length_modelsToTry)
  have "(0::nat) < length modelsToTry" "\<forall>j<(0::nat). fails_recoverably second_model_rejects (modelsToTry ! j)"
    using len by simp_all
  with t0 c0 q have n: "attempted ?r ! Suc 0 = modelsToTry ! Suc 0"
    using len by (auto split: if_splits)
  have "(1::nat) < length modelsToTry" "\<forall>j<(1::nat). fails_recoverably second_model_rejects (modelsToTry ! j)"
    using len f0 by simp_all
  with t1 c1 b have r: "?r = \<lparr>attempted = take (Suc 1) modelsToTry,
      final = record_chunk (newlines @ getFriendlyErrorMessage bad_request)
                (after_attempts second_model_rejects record_chunk (Some record_sources)
                   (take (Suc 1) modelsToTry) []),
      threw = False\<rparr>"
    by (auto split: if_splits)
  have k: "take (Suc 1) modelsToTry = [''gemini-3-pro-preview'', ''gemini-3-flash-preview'']"
    by code_simp
  have m: "modelsToTry ! Suc 0 = ''gemini-3-flash-preview''" by code_simp
  have g: "getFriendlyErrorMessage bad_request = ''[System Error: 400 INVALID_ARGUMENT]''"
    by code_simp
  have f: "after_attempts second_model_rejects record_chunk (Some record_sources)
             [''gemini-3-pro-preview'', ''gemini-3-flash-preview''] [] = []"
    by code_simp
  from q b c0 c1 n r k m g f show ?thesis by (simp add: record_chunk_def)
qed

section \<open>The friendly error message\<close>

text \<open>
  C7, as the code has it: \<^verbatim>\<open>getFriendlyErrorMessage\<close> applies its substring checks to
  the string representation of the error in the fixed priority order
  \<^verbatim>\<open>process is not defined\<close>; \<^verbatim>\<open>403\<close> or \<^verbatim>\<open>PERMISSION_DENIED\<close>; \<^verbatim>\<open>429\<close> or
  \<^verbatim>\<open>RESOURCE_EXHAUSTED\<close>; \<^verbatim>\<open>Safety\<close>; \<^verbatim>\<open>API_KEY\<close>, and returns the message of the
  first check that matches, so an error that matches two checks yields the message of
  the earlier one. When a check matches, the result is a function of the string
  representation alone. When none matches, the result is the generic message, which
  embeds \<^verbatim>\<open>error.message\<close> (or a default text): the result is then a function of the
  string representation and of \<^verbatim>\<open>error.message\<close>.
\<close>

theorem friendly_message_priority:
  "getFriendlyErrorMessage e =
     (case first_match friendly_checks (error_text e) of
        Some friendly \<Rightarrow> friendly
      | None \<Rightarrow> generic_message e) \<and>
   (error_text e = error_text e' \<and>
    (first_match friendly_checks (error_text e) \<noteq> None \<or> err_message e = err_message e') \<longrightarrow>
      getFriendlyErrorMessage e = getFriendlyErrorMessage e')"
  by (auto simp: friendly_refines generic_message_def split: option.splits)

theorem friendly_message_priority_witness:
  "getFriendlyErrorMessage
     \<lparr>err_toString = ''ApiError: 429 quota, then 403'', err_is_object = True, err_json = ''{}'',
      err_message = Some ''429 quota, then 403''\<rparr> =
   ''[System Error: Access Denied. Your API key may not have access to the selected model. Check your project permissions.]'' \<and>
   getFriendlyErrorMessage
     \<lparr>err_toString = ''ApiError: 429 quota, then 403'', err_is_object = True, err_json = ''{}'',
      err_message = None\<rparr> =
   ''[System Error: Access Denied. Your API key may not have access to the selected model. Check your project permissions.]''"
proof -
  let ?e = "\<lparr>err_toString = ''ApiError: 429 quota, then 403'', err_is_object = True,
             err_json = ''{}'', err_message = Some ''429 quota, then 403''\<rparr>"
  let ?e' = "\<lparr>err_toString = ''ApiError: 429 quota, then 403'', err_is_object = True,
              err_json = ''{}'', err_message = None\<rparr>"
  note t = friendly_message_priority[of ?e ?e']
  have x: "error_text ?e = error_text ?e'" by (simp add: error_text_def)
  have f: "first_match friendly_checks (error_text ?e) =
     Some ''[System Error: Access Denied. Your API key may not have access to the selected model. Check your project permissions.]''"
    by code_simp
  from t f have g1: "getFriendlyErrorMessage ?e =
     ''[System Error: Access Denied. Your API key may not have access to the selected model. Check your project permissions.]''"
    by simp
  from f have nn: "first_match friendly_checks (error_text ?e) \<noteq> None" by simp
  from t x nn have g2: "getFriendlyErrorMessage ?e = getFriendlyErrorMessage ?e'"
    by blast
  from g1 g2[symmetric] show ?thesis by simp
qed

text \<open>
  C7 as stated fails: two errors with the same string representation
  (\<^verbatim>\<open>toString()\<close> gives \<^verbatim>\<open>Error: a: b\<close> and \<^verbatim>\<open>JSON.stringify\<close> gives \<^verbatim>\<open>{}\<close> for both)
  and different \<^verbatim>\<open>message\<close> properties get different friendly messages.
\<close>

theorem friendly_message_not_text_only:
  "error_text \<lparr>err_toString = ''Error: a: b'', err_is_object = True, err_json = ''{}'',
               err_message = Some ''a: b''\<rparr> =
   error_text \<lparr>err_toString = ''Error: a: b'', err_is_object = True, err_json = ''{}'',
               err_message = Some ''b''\<rparr> \<and>
   getFriendlyErrorMessage \<lparr>err_toString = ''Error: a: b'', err_is_object = True, err_json = ''{}'',
               err_message = Some ''a: b''\<rparr> \<noteq>
   getFriendlyErrorMessage \<lparr>err_toString = ''Error: a: b'', err_is_object = True, err_json = ''{}'',
               err_message = Some ''b''\<rparr>"
  by (simp add: error_text_def getFriendlyErrorMessage_def)

section \<open>The streamed transcript\<close>

text \<open>
  C5, as the code has it: for every finite sequence of chunks, \<^verbatim>\<open>processStream\<close> calls
  \<^verbatim>\<open>onChunk\<close> once for each chunk with a non-empty text, in arrival order, with that
  text. For every client, \<^verbatim>\<open>streamResponse\<close> passes to \<^verbatim>\<open>onChunk\<close> the non-empty
  chunk texts of the stream of every requested model, in order, also those of a stream
  that fails after them, and then, if the call ends on an error, the friendly message of
  that error. \<^verbatim>\<open>processResponse\<close> leaves the transcript with the placeholder appended,
  its content the concatenation of all the texts passed to \<^verbatim>\<open>onChunk\<close>, and every
  message with another id unchanged; after every prefix of a stream the content is the
  text accumulated so far. When the call ends on a stream that completes, the content is
  the concatenation of chunk texts alone.
\<close>

theorem stream_accumulates:
  "chunk_calls (processStream cs record_chunk (Some record_sources) []) = chunk_texts cs \<and>
   length (chunk_texts cs) = length (filter (\<lambda>c. truthy (chunk_text c)) cs) \<and>
   attempted (streamResponse api record_chunk (Some record_sources) []) = requested api \<and>
   chunk_calls (final (streamResponse api record_chunk (Some record_sources) [])) =
     delivered_texts api \<and>
   accumulatedText (processStream cs (onChunk_cb b) (Some (onSources_cb b)) u) =
     accumulatedText u @ concat (chunk_texts cs) \<and>
   list_all2 (streamed_into b
       (if chunk_texts cs = [] then None else Some (accumulatedText u @ concat (chunk_texts cs))))
     (ui_messages u) (ui_messages (processStream cs (onChunk_cb b) (Some (onSources_cb b)) u)) \<and>
   accumulatedText (processResponse api b u0) = concat (delivered_texts api) \<and>
   content (last (ui_messages (processResponse api b u0))) = concat (delivered_texts api) \<and>
   list_all2 (streamed_into b
       (if delivered_texts api = [] then None else Some (concat (delivered_texts api))))
     (ui_messages u0 @ [botMsgPlaceholder b]) (ui_messages (processResponse api b u0)) \<and>
   (caught api (last (requested api)) = None \<longrightarrow>
      delivered_texts api = concat (map (stream_texts api) (requested api))) \<and>
   (api (hd modelsToTry) = Inr \<lparr>chunks = cs, failure = None\<rparr> \<longrightarrow>
      delivered_texts api = chunk_texts cs)"
proof -
  have 1: "chunk_calls (processStream cs record_chunk (Some record_sources) []) = chunk_texts cs"
    using processStream_recorded[of cs "[]"] by simp
  have 2: "length (chunk_texts cs) = length (filter (\<lambda>c. truthy (chunk_text c)) cs)"
    by (rule length_chunk_texts)
  have 3: "attempted (streamResponse api record_chunk (Some record_sources) []) = requested api"
    by (simp add: streamResponse_requested)
  have 4: "chunk_calls (final (streamResponse api record_chunk (Some record_sources) [])) =
     delivered_texts api"
    by (rule streamResponse_recorded)
  have 5: "accumulatedText (processResponse api b u0) = concat (delivered_texts api)"
    by (rule processResponse_text)
  from processResponse_accumulated[of api b u0]
  have 6: "content (last (ui_messages (processResponse api b u0))) = concat (delivered_texts api)"
    and 7: "list_all2 (streamed_into b
       (if delivered_texts api = [] then None else Some (concat (delivered_texts api))))
     (ui_messages u0 @ [botMsgPlaceholder b]) (ui_messages (processResponse api b u0))"
    unfolding 5 delivered_texts_nonempty by blast+
  have 8: "caught api (last (requested api)) = None \<Longrightarrow>
      delivered_texts api = concat (map (stream_texts api) (requested api))"
    by (simp add: delivered_texts_def)
  have 9: "api (hd modelsToTry) = Inr \<lparr>chunks = cs, failure = None\<rparr> \<Longrightarrow>
      delivered_texts api = chunk_texts cs"
    by (rule delivered_first_completes)
  from 1 2 3 4 5 6 7 8 9 processStream_ui[of cs b u] show ?thesis by blast
qed

theorem stream_accumulates_witness:
  "first_model_answers (hd modelsToTry) =
     Inr \<lparr>chunks = [text_chunk ''Once '', text_chunk [], text_chunk ''upon''], failure = None\<rparr> \<and>
   caught first_model_answers (last (requested first_model_answers)) = None \<and>
   chunk_calls (processStream [text_chunk ''Once '', text_chunk [], text_chunk ''upon'']
                  record_chunk (Some record_sources) []) = [''Once '', ''upon''] \<and>
   content (last (ui_messages (processResponse first_model_answers ''1700000000001'' story_ui))) =
     ''Once upon'' \<and>
   hd (ui_messages (processResponse first_model_answers ''1700000000001'' story_ui)) =
     hd (ui_messages story_ui) \<and>
   attempted (streamResponse resumes_on_second record_chunk (Some record_sources) []) =
     [''gemini-3-pro-preview'', ''gemini-3-flash-preview''] \<and>
   chunk_calls (final (streamResponse resumes_on_second record_chunk (Some record_sources) [])) =
     [''Hel'', ''Hello''] \<and>
   content (last (ui_messages (processResponse resumes_on_second ''1700000000001'' story_ui))) =
     ''HelHello''"
proof -
  let ?cs = "[text_chunk ''Once '', text_chunk [], text_chunk ''upon'']"
  let ?b = "''1700000000001''"
  let ?v = "processResponse first_model_answers ?b story_ui"
  note t = stream_accumulates[of ?cs first_model_answers ?b story_ui story_ui]
  note t2 = stream_accumulates[of ?cs resumes_on_second ?b story_ui story_ui]
  have a: "first_model_answers (hd modelsToTry) = Inr \<lparr>chunks = ?cs, failure = None\<rparr>"
    by (simp add: first_model_answers_def)
  have n: "caught first_model_answers (last (requested first_model_answers)) = None"
    by code_simp
  have x: "chunk_texts ?cs = [''Once '', ''upon'']" by code_simp
  from t have k: "chunk_calls (processStream ?cs record_chunk (Some record_sources) []) =
      chunk_texts ?cs"
    by blast
  from t a have d: "delivered_texts first_model_answers = chunk_texts ?cs" by blast
  from t have c: "content (last (ui_messages ?v)) = concat (delivered_texts first_model_answers)"
    by blast
  from t have l: "list_all2 (streamed_into ?b
          (if delivered_texts first_model_answers = [] then None
           else Some (concat (delivered_texts first_model_answers))))
        (ui_messages story_ui @ [botMsgPlaceholder ?b]) (ui_messages ?v)"
    by blast
  obtain m ms where ms: "ui_messages ?v = m # ms"
    and sm: "streamed_into ?b (if delivered_texts first_model_answers = [] then None
                else Some (concat (delivered_texts first_model_answers)))
               (hd (ui_messages story_ui)) m"
    using l by (auto simp: story_ui_def list_all2_Cons1)
  have "id_msg (hd (ui_messages story_ui)) \<noteq> ?b" by (simp add: story_ui_def)
  with sm have h: "m = hd (ui_messages story_ui)" by (simp add: streamed_into_def)
  have r2: "requested resumes_on_second = [''gemini-3-pro-preview'', ''gemini-3-flash-preview'']"
    by code_simp
  have d2: "delivered_texts resumes_on_second = [''Hel'', ''Hello'']" by code_simp
  from t2 have a2: "attempted (streamResponse resumes_on_second record_chunk (Some record_sources) []) =
      requested resumes_on_second"
    and k2: "chunk_calls (final (streamResponse resumes_on_second record_chunk (Some record_sources) [])) =
      delivered_texts resumes_on_second"
    and c2: "content (last (ui_messages (processResponse resumes_on_second ?b story_ui))) =
      concat (delivered_texts resumes_on_second)"
    by blast+
  from a n k x c d ms h a2 k2 c2 r2 d2 show ?thesis by simp
qed

text \<open>
  C5 as stated fails when the call ends on an error: the first model streams the chunk
  \<^verbatim>\<open>Hel\<close> and then fails with an error that is not recoverable; the content of the
  placeholder is the chunk text followed by the friendly error message, not the
  concatenation of the chunk texts received.
\<close>

theorem stream_accumulates_error_counterexample:
  "requested fails_midway = [''gemini-3-pro-preview''] \<and>
   stream_texts fails_midway ''gemini-3-pro-preview'' = [''Hel''] \<and>
   content (last (ui_messages (processResponse fails_midway ''1700000000001'' story_ui))) =
     ''Hel'' @ newlines @ ''[System Error: 400 INVALID_ARGUMENT]'' \<and>
   content (last (ui_messages (processResponse fails_midway ''1700000000001'' story_ui))) \<noteq>
     concat (stream_texts fails_midway ''gemini-3-pro-preview'')"
  by code_simp

section \<open>The session storage\<close>

text \<open>
  C10: \<^verbatim>\<open>getSessions\<close> never throws (its result is a list in every case). If nothing
  is stored under \<^verbatim>\<open>inkweaver_sessions\<close>, or the stored string cannot be parsed, it
  returns the empty list; otherwise it returns the parsed array. The hypothesis is that
  \<^verbatim>\<open>JSON.parse\<close> rejects the empty string, which the source treats as absent.
\<close>

theorem getSessions_never_throws:
  assumes "parse [] = Inl SyntaxError"
  shows "(getItem ls STORAGE_KEY = None \<longrightarrow> getSessions parse ls = []) \<and>
         (\<forall>stored. getItem ls STORAGE_KEY = Some stored \<longrightarrow>
            getSessions parse ls = (case parse stored of Inl e \<Rightarrow> [] | Inr sessions \<Rightarrow> sessions))"
  using assms by (auto simp: getSessions_def getSessions_try_def)

theorem getSessions_never_throws_witness:
  "table_parse small_table [] = Inl SyntaxError \<and>
   getSessions (table_parse small_table) Map.empty = [] \<and>
   getSessions (table_parse small_table) [STORAGE_KEY \<mapsto> ''{not json''] = [] \<and>
   getSessions (table_parse small_table) small_store = [session_at ''a'' 10]"
proof -
  let ?P = "table_parse small_table"
  have p: "?P [] = Inl SyntaxError" by (simp add: table_parse_def)
  have b: "?P ''{not json'' = Inl SyntaxError" by code_simp
  have s: "getItem small_store STORAGE_KEY = Some ''##''" by code_simp
  have g: "?P ''##'' = Inr [session_at ''a'' 10]" by code_simp
  note t0 = getSessions_never_throws[of ?P Map.empty, OF p]
  note t1 = getSessions_never_throws[of ?P "[STORAGE_KEY \<mapsto> ''{not json'']", OF p]
  note t2 = getSessions_never_throws[of ?P small_store, OF p]
  from t0 have 0: "getSessions ?P Map.empty = []" by (simp add: getItem_def)
  from t1 b have 1: "getSessions ?P [STORAGE_KEY \<mapsto> ''{not json''] = []"
    by (simp add: getItem_def)
  from t2 s g have 2: "getSessions ?P small_store = [session_at ''a'' 10]" by simp
  from p 0 1 2 show ?thesis by simp
qed

text \<open>
  C3: for every stored list and every session, the list that \<^verbatim>\<open>saveSession\<close> returns
  has at most 50 sessions, and it is the list written under the storage key; when the
  written text parses back to it, the store holds that list, so at most 50 sessions.
\<close>

theorem saveSession_at_most_50:
  "length (snd (saveSession parse stringify s ls)) \<le> 50 \<and>
   getItem (fst (saveSession parse stringify s ls)) STORAGE_KEY =
     Some (stringify (snd (saveSession parse stringify s ls))) \<and>
   (json_roundtrip parse stringify (snd (saveSession parse stringify s ls)) \<longrightarrow>
      getSessions parse (fst (saveSession parse stringify s ls)) =
        snd (saveSession parse stringify s ls) \<and>
      length (getSessions parse (fst (saveSession parse stringify s ls))) \<le> 50)"
proof -
  let ?r = "snd (saveSession parse stringify s ls)"
  have l: "length ?r \<le> 50" by (simp add: saveSession_snd)
  have w: "getItem (fst (saveSession parse stringify s ls)) STORAGE_KEY = Some (stringify ?r)"
    by (simp add: saveSession_fst getItem_def setItem_def)
  have "json_roundtrip parse stringify ?r \<Longrightarrow>
        getSessions parse (fst (saveSession parse stringify s ls)) = ?r"
    using getSessions_after_setItem[of parse stringify ?r ls] by (simp add: saveSession_fst)
  with l w show ?thesis by simp
qed

theorem saveSession_at_most_50_witness:
  "json_roundtrip (table_parse small_table) (table_stringify small_table)
     (snd (saveSession (table_parse small_table) (table_stringify small_table)
             (session_at ''b'' 20) small_store)) \<and>
   getSessions (table_parse small_table)
     (fst (saveSession (table_parse small_table) (table_stringify small_table)
             (session_at ''b'' 20) small_store)) = [session_at ''b'' 20, session_at ''a'' 10] \<and>
   length (getSessions (table_parse small_table)
     (fst (saveSession (table_parse small_table) (table_stringify small_table)
             (session_at ''b'' 20) small_store))) \<le> 50"
proof -
  let ?P = "table_parse small_table" and ?S = "table_stringify small_table"
  note t = saveSession_at_most_50[of ?P ?S "session_at ''b'' 20" small_store]
  have e: "snd (saveSession ?P ?S (session_at ''b'' 20) small_store) =
             [session_at ''b'' 20, session_at ''a'' 10]"
    by code_simp
  have rt: "json_roundtrip ?P ?S [session_at ''b'' 20, session_at ''a'' 10]" by code_simp
  from t e rt show ?thesis by simp
qed

text \<open>
  C8: the list that \<^verbatim>\<open>saveSession\<close> returns and writes is sorted by \<^verbatim>\<open>updatedAt\<close>,
  newest first. It is the first 50 sessions of the sorted list; the sessions kept and
  the sessions discarded are together the sessions after the upsert, and no discarded
  session is newer than a kept one.
\<close>

theorem saveSession_newest_first:
  "snd (saveSession parse stringify s ls) =
     take 50 (array_sort newest_first (upsert s (getSessions parse ls))) \<and>
   getItem (fst (saveSession parse stringify s ls)) STORAGE_KEY =
     Some (stringify (snd (saveSession parse stringify s ls))) \<and>
   sorted_wrt (\<lambda>a b. updatedAt b \<le> updatedAt a) (snd (saveSession parse stringify s ls)) \<and>
   mset (snd (saveSession parse stringify s ls)) +
     mset (drop 50 (array_sort newest_first (upsert s (getSessions parse ls)))) =
     mset (upsert s (getSessions parse ls)) \<and>
   (\<forall>k \<in> set (snd (saveSession parse stringify s ls)).
    \<forall>d \<in> set (drop 50 (array_sort newest_first (upsert s (getSessions parse ls)))).
      updatedAt d \<le> updatedAt k)"
proof -
  let ?u = "upsert s (getSessions parse ls)"
  let ?srt = "array_sort newest_first ?u"
  let ?r = "snd (saveSession parse stringify s ls)"
  have r: "?r = take 50 ?srt" by (rule saveSession_snd)
  have w: "getItem (fst (saveSession parse stringify s ls)) STORAGE_KEY = Some (stringify ?r)"
    by (simp add: saveSession_fst getItem_def setItem_def)
  have srt: "sorted_wrt (\<lambda>a b. updatedAt b \<le> updatedAt a) ?srt" by (rule sorted_array_sort)
  then have s1: "sorted_wrt (\<lambda>a b. updatedAt b \<le> updatedAt a) ?r"
    unfolding r by (rule sorted_wrt_take)
  have "mset (take 50 ?srt) + mset (drop 50 ?srt) = mset ?u"
    by (simp add: mset_take_drop mset_array_sort)
  then have m: "mset ?r + mset (drop 50 ?srt) = mset ?u" unfolding r .
  have "sorted_wrt (\<lambda>a b. updatedAt b \<le> updatedAt a) (take 50 ?srt @ drop 50 ?srt)"
    using srt by simp
  then have "\<forall>k \<in> set (take 50 ?srt). \<forall>d \<in> set (drop 50 ?srt). updatedAt d \<le> updatedAt k"
    unfolding sorted_wrt_append by blast
  then have c: "\<forall>k \<in> set ?r. \<forall>d \<in> set (drop 50 ?srt). updatedAt d \<le> updatedAt k"
    unfolding r .
  from r w s1 m c show ?thesis by blast
qed

theorem saveSession_newest_first_witness:
  "length (getSessions (table_parse [full_sessions]) full_store) = 51 \<and>
   session_at ''new'' 100 \<in>
     set (snd (saveSession (table_parse [full_sessions]) (table_stringify [full_sessions])
                 (session_at ''new'' 100) full_store)) \<and>
   session_at ''i'' 0 \<in>
     set (drop 50 (array_sort newest_first
                     (upsert (session_at ''new'' 100)
                        (getSessions (table_parse [full_sessions]) full_store)))) \<and>
   updatedAt (session_at ''i'' 0) \<le> updatedAt (session_at ''new'' 100)"
proof -
  let ?P = "table_parse [full_sessions]" and ?S = "table_stringify [full_sessions]"
  note t = saveSession_newest_first[of ?P ?S "session_at ''new'' 100" full_store]
  have l: "length (getSessions ?P full_store) = 51" by code_simp
  have k: "session_at ''new'' 100 \<in> set (snd (saveSession ?P ?S (session_at ''new'' 100) full_store))"
    by code_simp
  have d: "session_at ''i'' 0 \<in>
     set (drop 50 (array_sort newest_first
                     (upsert (session_at ''new'' 100) (getSessions ?P full_store))))"
    by code_simp
  from t k d have "updatedAt (session_at ''i'' 0) \<le> updatedAt (session_at ''new'' 100)"
    by blast
  with l k d show ?thesis by simp
qed



text \<open>
  C4, as the code has it: saving then reading round-trips. When at most one stored
  session has the id of \<open>s\<close> (the one that \<open>s\<close> replaces) and the written text parses
  back, \<^verbatim>\<open>getSessionById(s.id)\<close> after \<^verbatim>\<open>saveSession(s)\<close> returns \<open>s\<close> if fewer
  than 50 sessions are sorted ahead of \<open>s\<close>, and \<^verbatim>\<open>undefined\<close> otherwise. Sorted
  ahead of \<open>s\<close> are the sessions with a greater \<^verbatim>\<open>updatedAt\<close> and, the sort being
  stable, the sessions with the same \<^verbatim>\<open>updatedAt\<close> that stand before \<open>s\<close> in the list
  after the upsert. When the store holds at most 50 sessions, it is enough that fewer
  than 50 stored sessions have a greater \<^verbatim>\<open>updatedAt\<close>.
\<close>

theorem save_then_get:
  assumes unique: "length (with_id (id_session s) (getSessions parse ls)) \<le> 1"
    and codec: "json_roundtrip parse stringify (snd (saveSession parse stringify s ls))"
  shows "getSessionById parse (id_session s) (fst (saveSession parse stringify s ls)) =
           (if length (sorted_ahead s (upsert s (getSessions parse ls))) < 50 then Some s else None) \<and>
         (length (getSessions parse ls) \<le> 50 \<and> length (newer_than s (getSessions parse ls)) < 50 \<longrightarrow>
            getSessionById parse (id_session s) (fst (saveSession parse stringify s ls)) = Some s)"
  using read_after_save[OF unique codec] sorted_ahead_small_store[of "getSessions parse ls" s]
  by simp

theorem save_then_get_witness:
  "length (with_id (id_session (session_at ''b'' 20))
             (getSessions (table_parse small_table) small_store)) \<le> 1 \<and>
   json_roundtrip (table_parse small_table) (table_stringify small_table)
     (snd (saveSession (table_parse small_table) (table_stringify small_table)
             (session_at ''b'' 20) small_store)) \<and>
   length (getSessions (table_parse small_table) small_store) \<le> 50 \<and>
   length (newer_than (session_at ''b'' 20) (getSessions (table_parse small_table) small_store)) < 50 \<and>
   length (sorted_ahead (session_at ''b'' 20)
             (upsert (session_at ''b'' 20) (getSessions (table_parse small_table) small_store))) < 50 \<and>
   getSessionById (table_parse small_table) ''b''
     (fst (saveSession (table_parse small_table) (table_stringify small_table)
             (session_at ''b'' 20) small_store)) = Some (session_at ''b'' 20)"
proof -
  let ?P = "table_parse small_table" and ?S = "table_stringify small_table"
  have u: "length (with_id (id_session (session_at ''b'' 20)) (getSessions ?P small_store)) \<le> 1"
    by code_simp
  have rt: "json_roundtrip ?P ?S (snd (saveSession ?P ?S (session_at ''b'' 20) small_store))"
    by code_simp
  have l: "length (getSessions ?P small_store) \<le> 50" by code_simp
  have n: "length (newer_than (session_at ''b'' 20) (getSessions ?P small_store)) < 50"
    by code_simp
  have a: "length (sorted_ahead (session_at ''b'' 20)
             (upsert (session_at ''b'' 20) (getSessions ?P small_store))) < 50"
    by code_simp
  have i: "id_session (session_at ''b'' 20) = ''b''" by (simp add: session_at_def)
  from save_then_get[OF u rt] l n have "getSessionById ?P (id_session (session_at ''b'' 20))
      (fst (saveSession ?P ?S (session_at ''b'' 20) small_store)) = Some (session_at ''b'' 20)"
    by blast
  with u rt l n a i show ?thesis by simp
qed

text \<open>
  C4 as stated fails on ties: the store holds 51 sessions with the same \<^verbatim>\<open>updatedAt\<close>
  and the last of them is saved again. No other session has its id and no session is
  newer, yet the stable sort leaves it in place 51, the cap discards it, and the read
  returns \<^verbatim>\<open>undefined\<close>.
\<close>

theorem save_then_get_tie_counterexample:
  "length (with_id (id_session tied_last) (getSessions (table_parse tied_table) tied_store)) = 1 \<and>
   newer_than tied_last (getSessions (table_parse tied_table) tied_store) = [] \<and>
   json_roundtrip (table_parse tied_table) (table_stringify tied_table)
     (snd (saveSession (table_parse tied_table) (table_stringify tied_table) tied_last tied_store)) \<and>
   getSessionById (table_parse tied_table) (id_session tied_last)
     (fst (saveSession (table_parse tied_table) (table_stringify tied_table) tied_last tied_store)) =
     None"
  by code_simp

text \<open>
  C6: \<^verbatim>\<open>deleteSession(sessionId)\<close> returns and writes the stored list without the
  sessions whose id is \<open>sessionId\<close>: the other sessions keep their value and their
  order. If no stored session has that id, the list is the stored list. When the written
  text parses back, the store holds the list returned.
\<close>

theorem deleteSession_frame:
  "snd (deleteSession parse stringify sessionId ls) =
     filter (\<lambda>t. id_session t \<noteq> sessionId) (getSessions parse ls) \<and>
   fst (deleteSession parse stringify sessionId ls) =
     setItem ls STORAGE_KEY (stringify (snd (deleteSession parse stringify sessionId ls))) \<and>
   ((\<forall>t \<in> set (getSessions parse ls). id_session t \<noteq> sessionId) \<longrightarrow>
      snd (deleteSession parse stringify sessionId ls) = getSessions parse ls) \<and>
   (json_roundtrip parse stringify (snd (deleteSession parse stringify sessionId ls)) \<longrightarrow>
      getSessions parse (fst (deleteSession parse stringify sessionId ls)) =
        filter (\<lambda>t. id_session t \<noteq> sessionId) (getSessions parse ls))"
proof -
  let ?r = "snd (deleteSession parse stringify sessionId ls)"
  have r: "?r = filter (\<lambda>t. id_session t \<noteq> sessionId) (getSessions parse ls)"
    by (simp add: deleteSession_def Let_def)
  have f: "fst (deleteSession parse stringify sessionId ls) = setItem ls STORAGE_KEY (stringify ?r)"
    by (simp add: deleteSession_def Let_def)
  have u: "(\<forall>t \<in> set (getSessions parse ls). id_session t \<noteq> sessionId) \<Longrightarrow> ?r = getSessions parse ls"
    unfolding r by (simp add: filter_id_conv)
  have g: "json_roundtrip parse stringify ?r \<Longrightarrow>
        getSessions parse (fst (deleteSession parse stringify sessionId ls)) = ?r"
    unfolding f by (rule getSessions_after_setItem)
  from r f u g show ?thesis by metis
qed

theorem deleteSession_frame_witness:
  "snd (deleteSession (table_parse small_table) (table_stringify small_table) ''a'' two_store) =
     [session_at ''b'' 20] \<and>
   getSessions (table_parse small_table)
     (fst (deleteSession (table_parse small_table) (table_stringify small_table) ''a'' two_store)) =
     [session_at ''b'' 20] \<and>
   snd (deleteSession (table_parse small_table) (table_stringify small_table) ''c'' two_store) =
     [session_at ''b'' 20, session_at ''a'' 10]"
proof -
  let ?P = "table_parse small_table" and ?S = "table_stringify small_table"
  note ta = deleteSession_frame[of ?P ?S "''a''" two_store]
  note tc = deleteSession_frame[of ?P ?S "''c''" two_store]
  have g: "getSessions ?P two_store = [session_at ''b'' 20, session_at ''a'' 10]" by code_simp
  have f: "filter (\<lambda>t. id_session t \<noteq> ''a'') [session_at ''b'' 20, session_at ''a'' 10] =
             [session_at ''b'' 20]"
    by code_simp
  have rt: "json_roundtrip ?P ?S [session_at ''b'' 20]" by code_simp
  have n: "\<forall>t \<in> set (getSessions ?P two_store). id_session t \<noteq> ''c''"
    unfolding g by (simp add: session_at_def)
  from ta have "snd (deleteSession ?P ?S ''a'' two_store) =
      filter (\<lambda>t. id_session t \<noteq> ''a'') (getSessions ?P two_store)"
    by blast
  then have 1: "snd (deleteSession ?P ?S ''a'' two_store) = [session_at ''b'' 20]"
    unfolding g f .
  from ta have "json_roundtrip ?P ?S (snd (deleteSession ?P ?S ''a'' two_store)) \<longrightarrow>
      getSessions ?P (fst (deleteSession ?P ?S ''a'' two_store)) =
        filter (\<lambda>t. id_session t \<noteq> ''a'') (getSessions ?P two_store)"
    by blast
  then have 2: "getSessions ?P (fst (deleteSession ?P ?S ''a'' two_store)) = [session_at ''b'' 20]"
    unfolding 1 g f using rt by blast
  from tc n have "snd (deleteSession ?P ?S ''c'' two_store) = getSessions ?P two_store"
    by blast
  then have 3: "snd (deleteSession ?P ?S ''c'' two_store) =
      [session_at ''b'' 20, session_at ''a'' 10]"
    unfolding g .
  from 1 2 3 show ?thesis by simp
qed

end
